theory Spec2Isabelle
  imports Main
begin

section \<open>Tree nodes and the tree registry (tree.ts)\<close>

text \<open>
  A node of the tree is a JavaScript object. The selection code compares nodes with
  \<^verbatim>\<open>===\<close>, so the model keeps object identity apart from the object's contents:
  a \<open>node_ref\<close> is the identity of one object together with its readonly \<^verbatim>\<open>id\<close>
  (two objects may carry the same id, for instance a node and the stale copy of it that
  an earlier refresh produced).
\<close>

datatype node_ref = NodeRef (oid: nat) (id': string)

text \<open>
  The object graph below a node: \<open>expanded\<close> is \<open>None\<close> when the object has no
  \<^verbatim>\<open>expanded\<close> property, \<open>children\<close> is \<open>None\<close> when it has no \<^verbatim>\<open>children\<close>
  property (it is not a \<^verbatim>\<open>CompositeTreeNode\<close>). The graph reachable from a node is
  finite and acyclic by the type.
\<close>

datatype TreeNode = TreeNode (self: node_ref) (expanded: "bool option") (children: "TreeNode list option")

text \<open>
  The mutable \<^verbatim>\<open>selected\<close> property of every node object, keyed by the object:
  \<open>None\<close> when the object has no such property (it is not a \<^verbatim>\<open>SelectableTreeNode\<close>).
\<close>

type_synonym selected_store = "node_ref \<Rightarrow> bool option"

text \<open>
  Modelled from the spec: the class \<^verbatim>\<open>Emitter\<close> of common/event.ts is not among the sources.
  The specification asks for deterministic synchronous delivery, so firing an event is
  recorded as one entry of a trace, in the order of the \<^verbatim>\<open>fire\<close> calls:
  \<open>Changed\<close> for \<^verbatim>\<open>onChanged\<close>, \<open>NodeRefreshed\<close> for \<^verbatim>\<open>onNodeRefreshed\<close> with its node.
\<close>

datatype event = Changed | NodeRefreshed node_ref

subsection \<open>The index object\<close>

text \<open>
  The index \<^verbatim>\<open>nodes\<close> of \<^verbatim>\<open>TreeImpl\<close> is a plain object, created by \<^verbatim>\<open>{}\<close>, so a read
  \<^verbatim>\<open>this.nodes[id]\<close> that finds no own property goes on to the prototype of the object.
  What a read gives, when it is not \<^verbatim>\<open>undefined\<close>: a node object, or the member that
  \<^verbatim>\<open>Object.prototype\<close> has under that name (a function, and under \<^verbatim>\<open>__proto__\<close> the object
  \<^verbatim>\<open>Object.prototype\<close> itself), which is no node.
\<close>

datatype indexed = NodeObject TreeNode | Inherited string

text \<open>
  The object that a value is, for the comparisons with \<^verbatim>\<open>===\<close>: a member of
  \<^verbatim>\<open>Object.prototype\<close> is identical to no node.
\<close>

definition object_ref :: "indexed \<Rightarrow> node_ref option" where
  "object_ref v = (case v of NodeObject n \<Rightarrow> Some (self n) | Inherited k \<Rightarrow> None)"

text \<open>The property names of \<^verbatim>\<open>Object.prototype\<close> (ECMAScript with its annex B, as in a browser).\<close>

definition Object_prototype :: "string list" where
  "Object_prototype =
     [''constructor'', ''__defineGetter__'', ''__defineSetter__'', ''hasOwnProperty'',
      ''__lookupGetter__'', ''__lookupSetter__'', ''isPrototypeOf'', ''propertyIsEnumerable'',
      ''toString'', ''valueOf'', ''__proto__'', ''toLocaleString'']"

text \<open>
  The prototype of the index object: \<^verbatim>\<open>Object.prototype\<close> at first. The name \<^verbatim>\<open>__proto__\<close> is
  an accessor of \<^verbatim>\<open>Object.prototype\<close>: reading it gives the prototype of the object, and an
  assignment \<^verbatim>\<open>this.nodes['__proto__'] = node\<close> creates no own property but makes the node the
  prototype.
\<close>

datatype prototype = ObjectPrototype | NodePrototype TreeNode

record Index =
  own :: "string \<Rightarrow> TreeNode option"
  proto :: prototype

text \<open>The object literal \<^verbatim>\<open>{}\<close>.\<close>

definition empty_object :: Index where
  "empty_object = \<lparr>own = (\<lambda>k. None), proto = ObjectPrototype\<rparr>"

text \<open>
  What the prototype chain gives for a name. Of a node that has become the prototype the
  model follows the accessor \<^verbatim>\<open>__proto__\<close> and the members of \<^verbatim>\<open>Object.prototype\<close> behind
  it; the own properties of that node (its \<^verbatim>\<open>id\<close>, \<^verbatim>\<open>name\<close> and so on) are not read.
\<close>

definition inherited :: "prototype \<Rightarrow> string \<Rightarrow> indexed option" where
  "inherited p k =
     (if k = ''__proto__''
      then (case p of ObjectPrototype \<Rightarrow> Some (Inherited k) | NodePrototype n \<Rightarrow> Some (NodeObject n))
      else if k \<in> set Object_prototype then Some (Inherited k) else None)"

text \<open>The read \<^verbatim>\<open>o[k]\<close>, the assignment \<^verbatim>\<open>o[k] = node\<close> and \<^verbatim>\<open>delete o[k]\<close>.\<close>

definition get_property :: "Index \<Rightarrow> string \<Rightarrow> indexed option" where
  "get_property o' k =
     (case own o' k of Some n \<Rightarrow> Some (NodeObject n) | None \<Rightarrow> inherited (proto o') k)"

definition set_property :: "string \<Rightarrow> TreeNode \<Rightarrow> Index \<Rightarrow> Index" where
  "set_property k n o' =
     (if k = ''__proto__'' \<and> own o' k = None then o'\<lparr>proto := NodePrototype n\<rparr>
      else o'\<lparr>own := (own o')(k \<mapsto> n)\<rparr>)"

definition delete_property :: "string \<Rightarrow> Index \<Rightarrow> Index" where
  "delete_property k o' = o'\<lparr>own := (own o')(k := None)\<rparr>"

subsection \<open>\<^verbatim>\<open>TreeImpl\<close>\<close>

text \<open>
  \<^verbatim>\<open>TreeImpl\<close>: the root, the id index, and the events fired so far by
  \<^verbatim>\<open>onChangedEmitter\<close> and \<^verbatim>\<open>onNodeRefreshedEmitter\<close>. The index holds the node objects
  under their ids; an object is kept as the value it has, the graph below it included.
\<close>

record Tree =
  root :: "TreeNode option"
  nodes :: Index
  fired :: "event list"

text \<open>
  \<^verbatim>\<open>CompositeTreeNode.is\<close>: \<^verbatim>\<open>!!node && 'children' in node\<close>. The members of
  \<^verbatim>\<open>Object.prototype\<close> have no property \<^verbatim>\<open>children\<close>.
\<close>

definition CompositeTreeNode_is :: "indexed option \<Rightarrow> bool" where
  "CompositeTreeNode_is n =
     (case n of None \<Rightarrow> False
      | Some (NodeObject t) \<Rightarrow> children t \<noteq> None
      | Some (Inherited k) \<Rightarrow> False)"

definition SelectableTreeNode_is :: "selected_store \<Rightarrow> node_ref \<Rightarrow> bool" where
  "SelectableTreeNode_is h n = (h n \<noteq> None)"

definition getNode :: "Tree \<Rightarrow> string option \<Rightarrow> indexed option" where
  "getNode t i = (case i of Some k \<Rightarrow> get_property (nodes t) k | None \<Rightarrow> None)"

definition validateNode :: "Tree \<Rightarrow> node_ref option \<Rightarrow> indexed option" where
  "validateNode t n = getNode t (case n of Some r \<Rightarrow> Some (id' r) | None \<Rightarrow> None)"

definition fireChanged :: "Tree \<Rightarrow> Tree" where
  "fireChanged t = t\<lparr>fired := fired t @ [Changed]\<rparr>"

definition fireNodeRefreshed :: "TreeNode \<Rightarrow> Tree \<Rightarrow> Tree" where
  "fireNodeRefreshed parent t = fireChanged (t\<lparr>fired := fired t @ [NodeRefreshed (self parent)]\<rparr>)"

text \<open>\<^verbatim>\<open>removeNode\<close> and \<^verbatim>\<open>addNode\<close>, on the index.\<close>

fun removeNode :: "TreeNode \<Rightarrow> Index \<Rightarrow> Index" where
  "removeNode (TreeNode s e cs) m =
     (let m' = (case cs of None \<Rightarrow> m | Some l \<Rightarrow> fold removeNode l m)
      in delete_property (id' s) m')"

fun addNode :: "TreeNode \<Rightarrow> Index \<Rightarrow> Index" where
  "addNode (TreeNode s e cs) m =
     (let m' = set_property (id' s) (TreeNode s e cs) m
      in (case cs of None \<Rightarrow> m' | Some l \<Rightarrow> fold addNode l m'))"

text \<open>
  The assignment \<^verbatim>\<open>parent.children = children\<close> mutates one object; every place that
  holds this object sees the new children.
\<close>

fun assignChildren :: "node_ref \<Rightarrow> TreeNode list \<Rightarrow> TreeNode \<Rightarrow> TreeNode" where
  "assignChildren p new (TreeNode s e cs) =
     (if s = p then TreeNode s e (Some new)
      else TreeNode s e (case cs of None \<Rightarrow> None | Some l \<Rightarrow> Some (map (assignChildren p new) l)))"

definition assignChildren_in :: "node_ref \<Rightarrow> TreeNode list \<Rightarrow> Index \<Rightarrow> Index" where
  "assignChildren_in p new o' =
     \<lparr>own = (\<lambda>k. map_option (assignChildren p new) (own o' k)),
      proto = (case proto o' of ObjectPrototype \<Rightarrow> ObjectPrototype
               | NodePrototype n \<Rightarrow> NodePrototype (assignChildren p new n))\<rparr>"

definition setChildren :: "TreeNode \<Rightarrow> TreeNode list \<Rightarrow> Tree \<Rightarrow> Tree" where
  "setChildren parent new t =
     (let removed = removeNode parent (nodes t);
          parent' = TreeNode (self parent) (expanded parent) (Some new);
          t' = t\<lparr>root := map_option (assignChildren (self parent) new) (root t),
                 nodes := addNode parent' (assignChildren_in (self parent) new removed)\<rparr>
      in fireNodeRefreshed parent' t')"

text \<open>
  \<^verbatim>\<open>resolveChildren\<close> is \<^verbatim>\<open>Promise.resolve(Array.from(parent.children))\<close>: the array is
  copied when \<^verbatim>\<open>refresh\<close> runs, the \<^verbatim>\<open>then\<close> callback runs later.
\<close>

definition resolveChildren :: "TreeNode \<Rightarrow> TreeNode list" where
  "resolveChildren parent = (case children parent of Some l \<Rightarrow> l | None \<Rightarrow> [])"

text \<open>
  \<^verbatim>\<open>refresh\<close> returns the tree after its synchronous part together with the callback it
  has scheduled, if any: the arguments of the pending \<^verbatim>\<open>setChildren\<close> call.
\<close>

definition refresh :: "node_ref option \<Rightarrow> Tree \<Rightarrow> Tree \<times> (TreeNode \<times> TreeNode list) option" where
  "refresh raw t =
     (let parent = (case raw of None \<Rightarrow> map_option NodeObject (root t)
                    | Some r \<Rightarrow> validateNode t (Some r));
          pending = (if CompositeTreeNode_is parent
                     then (case parent of Some (NodeObject p) \<Rightarrow> Some (p, resolveChildren p)
                           | _ \<Rightarrow> None)
                     else None)
      in (fireChanged t, pending))"

text \<open>
  The callback of the promise, run on the tree as it is by then. The callback holds the
  parent and the copied array as the values they had when \<^verbatim>\<open>refresh\<close> ran: \<^verbatim>\<open>TreeImpl\<close>
  itself changes neither in between.
\<close>

definition runPending :: "(TreeNode \<times> TreeNode list) option \<Rightarrow> Tree \<Rightarrow> Tree" where
  "runPending pending t = (case pending of None \<Rightarrow> t | Some (parent, cs) \<Rightarrow> setChildren parent cs t)"

text \<open>The setter of \<^verbatim>\<open>root\<close>.\<close>

definition set_root :: "TreeNode option \<Rightarrow> Tree \<Rightarrow> Tree \<times> (TreeNode \<times> TreeNode list) option" where
  "set_root r t =
     refresh None (t\<lparr>nodes := (case r of None \<Rightarrow> empty_object | Some n \<Rightarrow> addNode n empty_object),
                     root := r\<rparr>)"

definition TreeImpl :: Tree where
  "TreeImpl = \<lparr>root = None, nodes = empty_object, fired = []\<rparr>"

section \<open>The depth-first iterator (tree-iterator.ts)\<close>

text \<open>
  Modelled from the spec: the class \<^verbatim>\<open>DepthFirstTreeIterator\<close> of tree-iterator.ts is not
  among the sources. The specification describes it as a depth-first, pre-order traversal
  of the whole tree pruning collapsed subtrees: a node is visited before its children, the
  children in their order, and the children of a node whose \<^verbatim>\<open>expanded\<close> is false are
  left out. This is the iterator with \<^verbatim>\<open>pruneCollapsed: true\<close>.
\<close>

fun DepthFirstTreeIterator :: "TreeNode \<Rightarrow> node_ref list" where
  "DepthFirstTreeIterator (TreeNode s e cs) =
     s # (if e = Some False then []
          else (case cs of None \<Rightarrow> [] | Some l \<Rightarrow> concat (map DepthFirstTreeIterator l)))"

section \<open>Tree selections (tree-selection.ts)\<close>

datatype SelectionType = DEFAULT | TOGGLE | RANGE

text \<open>
  The optional property \<^verbatim>\<open>type?: SelectionType\<close>: the property may be missing, present
  with the value \<^verbatim>\<open>undefined\<close>, or present with a selection type. Reading it gives
  \<^verbatim>\<open>undefined\<close> in the first two cases; an object spread copies it in the last two.
\<close>

datatype type_property = Absent | Undefined | Given SelectionType

record TreeSelection =
  node :: node_ref
  type :: type_property

definition type_of :: "TreeSelection \<Rightarrow> SelectionType option" where
  "type_of s = (case type s of Given t \<Rightarrow> Some t | _ \<Rightarrow> None)"

text \<open>The object literal \<^verbatim>\<open>{ type: DEFAULT, ...selection }\<close>.\<close>

definition spread_default :: "TreeSelection \<Rightarrow> TreeSelection" where
  "spread_default s = (if type s = Absent then s\<lparr>type := Given DEFAULT\<rparr> else s)"

section \<open>The selection state (tree-selection-state.ts)\<close>

datatype error = UnexpectedSelectionType | UnexpectedDefaultSelection

text \<open>
  The field \<^verbatim>\<open>tree\<close> refers to the tree shared with the selection service; no method of
  the state changes the tree, and the \<^verbatim>\<open>selected\<close> properties of the node objects are
  passed to the methods that read them.
\<close>

record TreeSelectionState =
  tree :: Tree
  selectionStack :: "TreeSelection list"

definition new_TreeSelectionState :: "Tree \<Rightarrow> TreeSelectionState" where
  "new_TreeSelectionState t = \<lparr>tree = t, selectionStack = []\<rparr>"

text \<open>\<^verbatim>\<open>Array.prototype.indexOf\<close>, with \<open>- 1\<close> for an element that is not there.\<close>

fun indexOf :: "'a list \<Rightarrow> 'a \<Rightarrow> int" where
  "indexOf [] x = - 1"
| "indexOf (y # ys) x =
     (if y = x then 0 else (let r = indexOf ys x in if r = - 1 then - 1 else r + 1))"

text \<open>\<^verbatim>\<open>xs.splice(i, 1, ...ys)\<close> for an index inside the array.\<close>

definition splice1 :: "nat \<Rightarrow> 'a list \<Rightarrow> 'a list \<Rightarrow> 'a list" where
  "splice1 i ys xs = take i xs @ ys @ drop (Suc i) xs"

text \<open>The keys of \<^verbatim>\<open>new Set(xs)\<close>: the elements in the order of their first occurrence.\<close>

fun Set_keys :: "'a list \<Rightarrow> 'a list" where
  "Set_keys [] = []"
| "Set_keys (x # xs) = x # Set_keys (filter (\<lambda>y. y \<noteq> x) xs)"

definition checkNoDefaultSelection :: "TreeSelection list \<Rightarrow> error + TreeSelection list" where
  "checkNoDefaultSelection selections =
     (if list_ex (\<lambda>s. type_of s = None \<or> type_of s = Some DEFAULT) selections
      then Inl UnexpectedDefaultSelection else Inr selections)"

text \<open>
  The loop of \<^verbatim>\<open>selectionRange\<close> over the iterator: \<open>started\<close> is the flag of the source,
  and \<^verbatim>\<open>finished\<close> ends the loop after the node that set it has been collected.
\<close>

fun collectRange :: "bool \<Rightarrow> indexed \<Rightarrow> indexed \<Rightarrow> node_ref list \<Rightarrow> node_ref list" where
  "collectRange started from to [] = []"
| "collectRange started from to (n # ns) =
     (if Some n = object_ref from \<or> Some n = object_ref to
      then (if started then [n] else n # collectRange True from to ns)
      else (if started then n # collectRange started from to ns
            else collectRange started from to ns))"

text \<open>\<^verbatim>\<open>range.indexOf(v)\<close> for a value that the index gave.\<close>

definition indexOf_indexed :: "node_ref list \<Rightarrow> indexed \<Rightarrow> int" where
  "indexOf_indexed xs v = (case object_ref v of Some n \<Rightarrow> indexOf xs n | None \<Rightarrow> - 1)"

definition selectionRange ::
  "selected_store \<Rightarrow> Tree \<Rightarrow> node_ref option \<Rightarrow> node_ref \<Rightarrow> node_ref list" where
  "selectionRange h t fromNode toNode =
     (case fromNode of None \<Rightarrow> []
      | Some f \<Rightarrow>
        if toNode = f then [toNode]
        else (case root t of None \<Rightarrow> []
          | Some r \<Rightarrow>
            (case validateNode t (Some toNode) of None \<Rightarrow> []
             | Some to \<Rightarrow>
               (case validateNode t (Some f) of None \<Rightarrow> []
                | Some from \<Rightarrow>
                  (let range = collectRange False from to (DepthFirstTreeIterator r);
                       range' = (if indexOf_indexed range from > indexOf_indexed range to
                                 then rev range else range)
                   in filter (SelectableTreeNode_is h) range')))))"

text \<open>
  The loop of \<^verbatim>\<open>selectedNodes\<close>, from the bottom of the stack: \<open>acc\<close> is the array
  \<^verbatim>\<open>nodes\<close> of the source, \<open>lastSelection\<close> the entry handled before, \<open>None\<close> at the
  start.
\<close>

fun selectedNodes_loop ::
  "selected_store \<Rightarrow> Tree \<Rightarrow> node_ref list \<Rightarrow> TreeSelection option \<Rightarrow> TreeSelection list
     \<Rightarrow> node_ref list" where
  "selectedNodes_loop h t acc lastSelection [] = acc"
| "selectedNodes_loop h t acc lastSelection (s # rest) =
     (let acc' =
        (if type_of s = Some RANGE then
           (let popped = (if (case lastSelection of None \<Rightarrow> False
                                | Some l \<Rightarrow> type_of l = Some TOGGLE)
                          then butlast acc else acc)
            in popped @ selectionRange h t (map_option node lastSelection) (node s))
         else if type_of s = Some TOGGLE then acc @ [node s]
         else acc)
      in selectedNodes_loop h t acc' (Some s) rest)"

definition selectedNodes :: "selected_store \<Rightarrow> TreeSelectionState \<Rightarrow> error + node_ref list" where
  "selectedNodes h st =
     (case checkNoDefaultSelection (selectionStack st) of Inl e \<Rightarrow> Inl e
      | Inr copy \<Rightarrow> Inr (Set_keys (rev (selectedNodes_loop h (tree st) [] None copy))))"

definition handleDefault :: "TreeSelectionState \<Rightarrow> node_ref \<Rightarrow> TreeSelectionState" where
  "handleDefault st selectedNode =
     \<lparr>tree = tree st, selectionStack = [\<lparr>node = selectedNode, type = Given TOGGLE\<rparr>]\<rparr>"

text \<open>
  The first loop of \<^verbatim>\<open>handleToggle\<close>, with \<open>i\<close> one above the index of the source:
  the result is the new stack when a range that holds the node was split.
\<close>

fun handleToggle_split ::
  "selected_store \<Rightarrow> Tree \<Rightarrow> TreeSelection list \<Rightarrow> node_ref \<Rightarrow> nat \<Rightarrow> TreeSelection list option" where
  "handleToggle_split h t copy selectedNode 0 = None"
| "handleToggle_split h t copy selectedNode (Suc i) =
     (let lastSelection = (if i = 0 then None else Some (node (copy ! (i - 1))));
          s = copy ! i
      in if type_of s = Some RANGE then
           (let range = selectionRange h t lastSelection (node s);
                index = indexOf range selectedNode
            in if index \<noteq> - 1 then
                 (let range' = splice1 (nat index) [] range;
                      rangeSubstitute = map (\<lambda>n. \<lparr>node = n, type = Given TOGGLE\<rparr>) range'
                  in Some (splice1 i (tl rangeSubstitute) copy))
               else handleToggle_split h t copy selectedNode i)
         else handleToggle_split h t copy selectedNode i)"

text \<open>The second loop of \<^verbatim>\<open>handleToggle\<close>: the indices pushed to \<^verbatim>\<open>toRemove\<close>.\<close>

fun handleToggle_toRemove :: "TreeSelection list \<Rightarrow> node_ref \<Rightarrow> nat \<Rightarrow> nat list \<Rightarrow> nat list" where
  "handleToggle_toRemove copy selectedNode 0 toRemove = toRemove"
| "handleToggle_toRemove copy selectedNode (Suc i) toRemove =
     (let s = copy ! i
      in if type_of s = Some RANGE then toRemove
         else if node s = selectedNode
              then handleToggle_toRemove copy selectedNode i (toRemove @ [i])
              else handleToggle_toRemove copy selectedNode i toRemove)"

definition handleToggle ::
  "selected_store \<Rightarrow> TreeSelectionState \<Rightarrow> node_ref \<Rightarrow> error + TreeSelectionState" where
  "handleToggle h st selectedNode =
     (case checkNoDefaultSelection (selectionStack st) of Inl e \<Rightarrow> Inl e
      | Inr copy \<Rightarrow>
        if length copy = 1 \<and> type_of (copy ! 0) = Some TOGGLE \<and> node (copy ! 0) = selectedNode
        then Inr st
        else (case handleToggle_split h (tree st) copy selectedNode (length copy) of
            Some copy' \<Rightarrow> Inr \<lparr>tree = tree st, selectionStack = copy'\<rparr>
          | None \<Rightarrow>
            (let toggle = \<lparr>node = selectedNode, type = Given TOGGLE\<rparr>;
                 toRemove = handleToggle_toRemove copy selectedNode (length copy) [];
                 copy' = fold (\<lambda>index c. splice1 index [] c) toRemove copy
             in if length toRemove > 0
                then Inr \<lparr>tree = tree st, selectionStack = copy'\<rparr>
                else Inr \<lparr>tree = tree st, selectionStack = copy' @ [toggle]\<rparr>)))"

text \<open>
  The loop of \<^verbatim>\<open>handleRange\<close>: the stack (popped when the entry on top is a range)
  and the indices pushed to \<^verbatim>\<open>toRemove\<close>.
\<close>

fun handleRange_loop ::
  "selected_store \<Rightarrow> Tree \<Rightarrow> node_ref option \<Rightarrow> node_ref \<Rightarrow> TreeSelection list \<Rightarrow> nat \<Rightarrow> nat list
     \<Rightarrow> TreeSelection list \<times> nat list" where
  "handleRange_loop h t lastSelection rangeNode copy 0 toRemove = (copy, toRemove)"
| "handleRange_loop h t lastSelection rangeNode copy (Suc i) toRemove =
     (let s = copy ! i
      in if type_of s = Some RANGE then
           ((if i = length copy - 1 then butlast copy else copy), toRemove)
         else (let index = indexOf (selectionRange h t lastSelection rangeNode) (node s)
               in if index \<noteq> - 1
                  then handleRange_loop h t lastSelection rangeNode copy i (toRemove @ [i])
                  else handleRange_loop h t lastSelection rangeNode copy i toRemove))"

definition handleRange ::
  "selected_store \<Rightarrow> TreeSelectionState \<Rightarrow> node_ref \<Rightarrow> error + TreeSelectionState" where
  "handleRange h st selectedNode =
     (case checkNoDefaultSelection (selectionStack st) of Inl e \<Rightarrow> Inl e
      | Inr copy \<Rightarrow>
        (let range = \<lparr>node = selectedNode, type = Given RANGE\<rparr>;
             lastSelection = (if copy = [] then None else Some (node (copy ! (length copy - 1))));
             (copy1, toRemove) =
                handleRange_loop h (tree st) lastSelection (node range) copy (length copy) [];
             copy2 = fold (\<lambda>index c. splice1 index [] c) (tl toRemove) copy1
         in Inr \<lparr>tree = tree st, selectionStack = copy2 @ [range]\<rparr>))"

definition nextState ::
  "selected_store \<Rightarrow> TreeSelectionState \<Rightarrow> TreeSelection \<Rightarrow> error + TreeSelectionState" where
  "nextState h st selection =
     (let s = spread_default selection
      in case type_of s of
           Some DEFAULT \<Rightarrow> Inr (handleDefault st (node s))
         | Some TOGGLE \<Rightarrow> handleToggle h st (node s)
         | Some RANGE \<Rightarrow> handleRange h st (node s)
         | None \<Rightarrow> Inl UnexpectedSelectionType)"

section \<open>The fixture of the tests (mock-tree-model.ts)\<close>

text \<open>
  \<^verbatim>\<open>Node.toTreeNode\<close> gives every node \<^verbatim>\<open>selected: false\<close> and a \<^verbatim>\<open>children\<close> array, and
  \<^verbatim>\<open>expanded: true\<close> to the nodes that have children.
\<close>

definition leaf :: "nat \<Rightarrow> string \<Rightarrow> TreeNode" where
  "leaf k i = TreeNode (NodeRef k i) None (Some [])"

definition inner :: "nat \<Rightarrow> string \<Rightarrow> TreeNode list \<Rightarrow> TreeNode" where
  "inner k i cs = TreeNode (NodeRef k i) (Some True) (Some cs)"

definition MOCK_ROOT :: TreeNode where
  "MOCK_ROOT =
     inner 0 ''1''
       [inner 1 ''1.1'' [leaf 2 ''1.1.1'', leaf 3 ''1.1.2''],
        inner 4 ''1.2''
          [inner 5 ''1.2.1'' [leaf 6 ''1.2.1.1'', leaf 7 ''1.2.1.2''],
           leaf 8 ''1.2.2'',
           leaf 9 ''1.2.3''],
        leaf 10 ''1.3'']"

text \<open>The tree after \<^verbatim>\<open>model.root = MOCK_ROOT()\<close> and the refresh that the setter starts.\<close>

definition mock_tree :: Tree where
  "mock_tree = (let (t, pending) = set_root (Some MOCK_ROOT) TreeImpl in runPending pending t)"

definition mock_selected :: selected_store where
  "mock_selected = (\<lambda>n. Some False)"

text \<open>
  \<^verbatim>\<open>findNode\<close> of the tests (they pass ids of the fixture only), and the selections that
  their \<^verbatim>\<open>nextState\<close> helper builds from \<^verbatim>\<open>'toggle'\<close>, \<^verbatim>\<open>'range'\<close> and \<^verbatim>\<open>'default'\<close>.
\<close>

definition findNode :: "string \<Rightarrow> node_ref" where
  "findNode i = the (case getNode mock_tree (Some i) of None \<Rightarrow> None | Some v \<Rightarrow> object_ref v)"

definition toggle_of :: "string \<Rightarrow> TreeSelection" where
  "toggle_of i = \<lparr>node = findNode i, type = Given TOGGLE\<rparr>"

definition range_of :: "string \<Rightarrow> TreeSelection" where
  "range_of i = \<lparr>node = findNode i, type = Given RANGE\<rparr>"

definition default_of :: "string \<Rightarrow> TreeSelection" where
  "default_of i = \<lparr>node = findNode i, type = Given DEFAULT\<rparr>"

text \<open>A sequence of \<^verbatim>\<open>nextState\<close> calls; an exception ends it.\<close>

fun nextStates ::
  "selected_store \<Rightarrow> TreeSelectionState \<Rightarrow> TreeSelection list \<Rightarrow> error + TreeSelectionState" where
  "nextStates h st [] = Inr st"
| "nextStates h st (s # rest) =
     (case nextState h st s of Inl e \<Rightarrow> Inl e | Inr st' \<Rightarrow> nextStates h st' rest)"

definition selectedIds :: "selected_store \<Rightarrow> error + TreeSelectionState \<Rightarrow> error + string list" where
  "selectedIds h r =
     (case r of Inl e \<Rightarrow> Inl e
      | Inr st \<Rightarrow> (case selectedNodes h st of Inl e \<Rightarrow> Inl e | Inr ns \<Rightarrow> Inr (map id' ns)))"

section \<open>The selection service (tree-selection.ts)\<close>

text \<open>
  \<^verbatim>\<open>TreeSelectionServiceImpl\<close>: the injected tree (the field \<^verbatim>\<open>tree\<close> of the source), the
  state it holds, and the payloads fired by \<^verbatim>\<open>onSelectionChangedEmitter\<close> so far.
\<close>

record TreeSelectionServiceImpl =
  service_tree :: Tree
  state :: TreeSelectionState
  onSelectionChanged :: "node_ref list list"

definition init :: "Tree \<Rightarrow> TreeSelectionServiceImpl" where
  "init t = \<lparr>service_tree = t, state = new_TreeSelectionState t, onSelectionChanged = []\<rparr>"

text \<open>The argument of \<^verbatim>\<open>addSelection\<close>: a selection, or a bare node.\<close>

datatype selectionOrTreeNode = Selection TreeSelection | Node node_ref

definition service_selectedNodes ::
  "selected_store \<Rightarrow> TreeSelectionServiceImpl \<Rightarrow> error + node_ref list" where
  "service_selectedNodes h svc = selectedNodes h (state svc)"

definition fireSelectionChanged ::
  "selected_store \<Rightarrow> TreeSelectionServiceImpl \<Rightarrow> error + selected_store \<times> TreeSelectionServiceImpl" where
  "fireSelectionChanged h svc =
     (case selectedNodes h (state svc) of Inl e \<Rightarrow> Inl e
      | Inr ns \<Rightarrow> Inr (h, svc\<lparr>onSelectionChanged := onSelectionChanged svc @ [ns]\<rparr>))"

definition unselect :: "node_ref list \<Rightarrow> selected_store \<Rightarrow> selected_store" where
  "unselect ns h = fold (\<lambda>n h'. h'(n \<mapsto> False)) ns h"

definition select :: "node_ref list \<Rightarrow> selected_store \<Rightarrow> selected_store" where
  "select ns h = fold (\<lambda>n h'. h'(n \<mapsto> True)) ns h"

definition difference :: "'a list \<Rightarrow> 'a list \<Rightarrow> 'a list" where
  "difference left right = filter (\<lambda>item. indexOf right item = - 1) left"

definition service_validateNode :: "TreeSelectionServiceImpl \<Rightarrow> node_ref \<Rightarrow> indexed option" where
  "service_validateNode svc n = validateNode (service_tree svc) (Some n)"

text \<open>The arrow function that \<^verbatim>\<open>addSelection\<close> applies to its argument first.\<close>

definition selection_of :: "selectionOrTreeNode \<Rightarrow> TreeSelection" where
  "selection_of arg =
     (case arg of Selection a \<Rightarrow> spread_default a
      | Node n \<Rightarrow> \<lparr>node = n, type = Given DEFAULT\<rparr>)"

definition addSelection ::
  "selected_store \<Rightarrow> TreeSelectionServiceImpl \<Rightarrow> selectionOrTreeNode
     \<Rightarrow> error + selected_store \<times> TreeSelectionServiceImpl" where
  "addSelection h svc selectionOrTreeNode =
     (let selection = selection_of selectionOrTreeNode
      in if service_validateNode svc (node selection) = None then Inr (h, svc)
         else (let oldState = state svc
               in case nextState h (state svc) selection of Inl e \<Rightarrow> Inl e
                  | Inr newState \<Rightarrow>
                    (case selectedNodes h oldState of Inl e \<Rightarrow> Inl e
                     | Inr oldNodes \<Rightarrow>
                       (case selectedNodes h newState of Inl e \<Rightarrow> Inl e
                        | Inr newNodes \<Rightarrow>
                          (let toUnselect = difference oldNodes newNodes;
                               toSelect = difference newNodes oldNodes
                           in if length toUnselect = 0 \<and> length toSelect = 0 then Inr (h, svc)
                              else fireSelectionChanged
                                     (select toSelect (unselect toUnselect h))
                                     (svc\<lparr>state := newState\<rparr>))))))"

text \<open>The node that an argument of \<^verbatim>\<open>addSelection\<close> selects.\<close>

definition target :: "selectionOrTreeNode \<Rightarrow> node_ref" where
  "target a = (case a of Selection s \<Rightarrow> node s | Node n \<Rightarrow> n)"

section \<open>Reachable states\<close>

text \<open>
  The selection states that a sequence of \<^verbatim>\<open>nextState\<close> calls produces from the empty
  state. A call that throws produces no state. Between two calls the tree that the state
  refers to, and the \<^verbatim>\<open>selected\<close> properties, may have changed.
\<close>

inductive reachable :: "TreeSelectionState \<Rightarrow> bool" where
  empty: "reachable (new_TreeSelectionState t)"
| step: "reachable st \<Longrightarrow> nextState h st s = Inr st' \<Longrightarrow> reachable st'"
| tree_changed: "reachable st \<Longrightarrow> reachable (st\<lparr>tree := t\<rparr>)"

text \<open>
  The store and the service after a sequence of \<^verbatim>\<open>addSelection\<close> calls on the service of
  a tree, each with a \<^verbatim>\<open>SelectableTreeNode\<close> as the type of the argument demands. A call that
  throws changes neither.
\<close>

inductive service_reachable ::
  "selected_store \<Rightarrow> Tree \<Rightarrow> selected_store \<Rightarrow> TreeSelectionServiceImpl \<Rightarrow> bool"
  for h0 :: selected_store and t :: Tree where
  start: "service_reachable h0 t h0 (init t)"
| call: "service_reachable h0 t h svc \<Longrightarrow> SelectableTreeNode_is h (target a)
         \<Longrightarrow> addSelection h svc a = Inr (h', svc') \<Longrightarrow> service_reachable h0 t h' svc'"

section \<open>Basic facts\<close>

lemma checkNoDefaultSelection_Inr:
  "(\<forall>e\<in>set S. type_of e = Some TOGGLE \<or> type_of e = Some RANGE)
     \<Longrightarrow> checkNoDefaultSelection S = Inr S"
  by (auto simp: checkNoDefaultSelection_def list_ex_iff)

lemma handleRange_on_range:
  assumes "\<forall>e\<in>set S. type_of e = Some TOGGLE \<or> type_of e = Some RANGE"
  shows "nextState h \<lparr>tree = t, selectionStack = S @ [\<lparr>node = B, type = Given RANGE\<rparr>]\<rparr>
           \<lparr>node = N, type = Given RANGE\<rparr>
         = Inr \<lparr>tree = t, selectionStack = S @ [\<lparr>node = N, type = Given RANGE\<rparr>]\<rparr>"
proof -
  let ?copy = "S @ [\<lparr>node = B, type = Given RANGE\<rparr>]"
  have "checkNoDefaultSelection ?copy = Inr ?copy"
    using assms by (intro checkNoDefaultSelection_Inr) (auto simp: type_of_def)
  then show ?thesis
    by (simp add: nextState_def spread_default_def type_of_def handleRange_def)
qed

text \<open>\<^verbatim>\<open>addSelection\<close> returns at once when \<^verbatim>\<open>validateNode\<close> gives \<^verbatim>\<open>undefined\<close>.\<close>

lemma addSelection_validateNode_undefined:
  "service_validateNode svc (target a) = None \<Longrightarrow> addSelection h svc a = Inr (h, svc)"
  by (cases a) (simp_all add: addSelection_def selection_of_def target_def spread_default_def)

lemma set_splice1: "set (splice1 i ys xs) \<subseteq> set xs \<union> set ys"
  unfolding splice1_def using set_take_subset [of i xs] set_drop_subset [of "Suc i" xs] by auto

lemma set_fold_splice1: "set (fold (\<lambda>index c. splice1 index [] c) is xs) \<subseteq> set xs"
proof (induction "is" arbitrary: xs)
  case Nil
  then show ?case by simp
next
  case (Cons i "is")
  have "set (fold (\<lambda>index c. splice1 index [] c) is (splice1 i [] xs)) \<subseteq> set (splice1 i [] xs)"
    by (rule Cons.IH)
  also have "\<dots> \<subseteq> set xs" using set_splice1 [of i "[]" xs] by simp
  finally show ?case by simp
qed

lemma indexOf_absent: "x \<notin> set xs \<Longrightarrow> indexOf xs x = - 1"
  by (induction xs) (auto simp: Let_def)

lemma indexOf_present: "x \<in> set xs \<Longrightarrow> 0 \<le> indexOf xs x"
  by (induction xs) (auto simp: Let_def)

lemma indexOf_eq_minus1: "(indexOf xs x = - 1) = (x \<notin> set xs)"
  using indexOf_absent [of x xs] indexOf_present [of x xs] by auto

lemma handleToggle_split_entries:
  assumes "handleToggle_split h t copy x k = Some c" and "k \<le> length copy" and "e \<in> set c"
  shows "e \<in> set copy \<or>
     (type e = Given TOGGLE \<and> (\<exists>f s. s \<in> set copy \<and> node e \<in> set (selectionRange h t f (node s))))"
  using assms
proof (induction k)
  case 0
  then show ?case by simp
next
  case (Suc i)
  let ?r = "selectionRange h t (if i = 0 then None else Some (node (copy ! (i - 1)))) (node (copy ! i))"
  show ?case
  proof (cases "type_of (copy ! i) = Some RANGE \<and> indexOf ?r x \<noteq> - 1")
    case True
    let ?sub = "map (\<lambda>n. \<lparr>node = n, type = Given TOGGLE\<rparr>) (splice1 (nat (indexOf ?r x)) [] ?r)"
    have c: "c = splice1 i (tl ?sub) copy"
      using Suc.prems(1) True by (simp add: Let_def)
    have "e \<in> set copy \<or> e \<in> set (tl ?sub)"
      using Suc.prems(3) set_splice1 [of i "tl ?sub" copy] unfolding c by auto
    moreover have "e \<in> set (tl ?sub) \<Longrightarrow> type e = Given TOGGLE \<and> node e \<in> set ?r"
    proof -
      assume "e \<in> set (tl ?sub)"
      then have "e \<in> set ?sub" by (metis list.sel(2) list.set_sel(2))
      then obtain n where n: "n \<in> set (splice1 (nat (indexOf ?r x)) [] ?r)"
        and e: "e = \<lparr>node = n, type = Given TOGGLE\<rparr>" by auto
      have "n \<in> set ?r" using n set_splice1 [of "nat (indexOf ?r x)" "[]" ?r] by auto
      then show ?thesis using e by simp
    qed
    moreover have "copy ! i \<in> set copy" using Suc.prems(2) by simp
    ultimately show ?thesis by blast
  next
    case False
    then have "handleToggle_split h t copy x i = Some c"
      using Suc.prems(1) by (auto simp: Let_def split: if_splits)
    then show ?thesis using Suc.IH Suc.prems(2,3) by simp
  qed
qed

lemma handleRange_loop_copy:
  "fst (handleRange_loop h t l r copy k acc) = copy \<or> fst (handleRange_loop h t l r copy k acc) = butlast copy"
proof (induction k arbitrary: acc)
  case 0
  then show ?case by simp
next
  case (Suc k)
  show ?case using Suc.IH [of acc] Suc.IH [of "acc @ [k]"]
    by (cases "type_of (copy ! k) = Some RANGE") (simp_all add: Let_def)
qed

lemma selectionRange_selectable:
  assumes a: "n \<in> set (selectionRange h t f x)"
  shows "h n \<noteq> None \<or> n = x"
proof (cases f)
  case None
  then show ?thesis using a by (simp add: selectionRange_def)
next
  case (Some fr)
  show ?thesis
  proof (cases "x = fr")
    case True
    then show ?thesis using a Some by (simp add: selectionRange_def)
  next
    case False
    then have "SelectableTreeNode_is h n"
      using a Some
      by (cases "root t"; cases "validateNode t (Some x)"; cases "validateNode t (Some fr)")
         (simp_all add: selectionRange_def Let_def)
    then show ?thesis by (simp add: SelectableTreeNode_is_def)
  qed
qed

text \<open>Where the entries of the next state come from.\<close>

lemma nextState_entries:
  assumes "nextState h st s = Inr st'" and "e \<in> set (selectionStack st')"
  shows "e \<in> set (selectionStack st)
       \<or> e = \<lparr>node = node s, type = Given TOGGLE\<rparr>
       \<or> e = \<lparr>node = node s, type = Given RANGE\<rparr>
       \<or> (type e = Given TOGGLE \<and>
           (\<exists>f x. x \<in> set (selectionStack st) \<and> node e \<in> set (selectionRange h (tree st) f (node x))))"
proof (cases "type_of (spread_default s)")
  case None
  then show ?thesis using assms by (simp add: nextState_def)
next
  case (Some ty)
  have nd: "node (spread_default s) = node s" by (simp add: spread_default_def)
  show ?thesis
  proof (cases ty)
    case DEFAULT
    then show ?thesis using assms Some nd by (auto simp: nextState_def handleDefault_def)
  next
    case TOGGLE
    then have ht: "handleToggle h st (node s) = Inr st'"
      using assms(1) Some nd by (simp add: nextState_def)
    let ?copy = "selectionStack st"
    have chk: "checkNoDefaultSelection ?copy = Inr ?copy"
      using ht by (auto simp: handleToggle_def checkNoDefaultSelection_def split: if_splits)
    show ?thesis
    proof (cases "length ?copy = 1 \<and> type_of (?copy ! 0) = Some TOGGLE \<and> node (?copy ! 0) = node s")
      case True
      then have "st' = st" using ht chk by (simp add: handleToggle_def)
      then show ?thesis using assms(2) by simp
    next
      case False
      show ?thesis
      proof (cases "handleToggle_split h (tree st) ?copy (node s) (length ?copy)")
        case (Some c)
        then have "selectionStack st' = c" using ht chk False by (auto simp: handleToggle_def)
        then show ?thesis
          using handleToggle_split_entries [OF Some, of e] assms(2) by blast
      next
        case None
        let ?f = "fold (\<lambda>index c. splice1 index [] c) (handleToggle_toRemove ?copy (node s) (length ?copy) []) ?copy"
        have "selectionStack st' = ?f \<or> selectionStack st' = ?f @ [\<lparr>node = node s, type = Given TOGGLE\<rparr>]"
          using ht chk False None by (auto simp: handleToggle_def Let_def split: if_splits)
        then show ?thesis
          using assms(2) set_fold_splice1 [of "handleToggle_toRemove ?copy (node s) (length ?copy) []" ?copy]
          by auto
      qed
    qed
  next
    case RANGE
    then have hr: "handleRange h st (node s) = Inr st'"
      using assms(1) Some nd by (simp add: nextState_def)
    let ?copy = "selectionStack st"
    have chk: "checkNoDefaultSelection ?copy = Inr ?copy"
      using hr by (auto simp: handleRange_def checkNoDefaultSelection_def split: if_splits)
    let ?l = "if ?copy = [] then None else Some (node (?copy ! (length ?copy - 1)))"
    let ?p = "handleRange_loop h (tree st) ?l (node s) ?copy (length ?copy) []"
    have st': "selectionStack st' = fold (\<lambda>index c. splice1 index [] c) (tl (snd ?p)) (fst ?p) @ [\<lparr>node = node s, type = Given RANGE\<rparr>]"
      using hr chk by (auto simp: handleRange_def Let_def split: prod.splits)
    have "set (fst ?p) \<subseteq> set ?copy"
      using handleRange_loop_copy [of h "tree st" ?l "node s" ?copy "length ?copy" "[]"]
      by (auto dest: in_set_butlastD)
    then show ?thesis
      using assms(2) set_fold_splice1 [of "tl (snd ?p)" "fst ?p"] unfolding st' by auto
  qed
qed

lemma nextState_types:
  assumes "nextState h st s = Inr st'"
    and "\<forall>e\<in>set (selectionStack st). type_of e = Some TOGGLE \<or> type_of e = Some RANGE"
  shows "\<forall>e\<in>set (selectionStack st'). type_of e = Some TOGGLE \<or> type_of e = Some RANGE"
proof
  fix e assume "e \<in> set (selectionStack st')"
  from nextState_entries [OF assms(1) this] assms(2)
  show "type_of e = Some TOGGLE \<or> type_of e = Some RANGE"
    by (auto simp: type_of_def)
qed

lemma reachable_types:
  "reachable st \<Longrightarrow> \<forall>e\<in>set (selectionStack st). type_of e = Some TOGGLE \<or> type_of e = Some RANGE"
proof (induction rule: reachable.induct)
  case (empty t)
  then show ?case by (simp add: new_TreeSelectionState_def)
next
  case (step st h s st')
  then show ?case using nextState_types by blast
next
  case (tree_changed st t)
  then show ?case by simp
qed

lemma nextState_error:
  assumes "checkNoDefaultSelection (selectionStack st) = Inr (selectionStack st)"
  shows "nextState h st s \<noteq> Inl UnexpectedDefaultSelection"
  using assms
  by (auto simp: nextState_def handleToggle_def handleRange_def Let_def
      split: option.splits SelectionType.splits prod.splits)

lemma selectedNodes_throws:
  "\<exists>e\<in>set (selectionStack st). type_of e = Some DEFAULT \<or> type_of e = None
     \<Longrightarrow> selectedNodes h st = Inl UnexpectedDefaultSelection"
  by (auto simp: selectedNodes_def checkNoDefaultSelection_def list_ex_iff)


section \<open>The selected nodes and the \<^verbatim>\<open>selected\<close> properties\<close>

lemma Set_keys_set: "set (Set_keys xs) = set xs"
  by (induction xs rule: Set_keys.induct) auto

lemma selectionRange_store_cong:
  assumes "\<forall>n. (h' n = None) = (h n = None)"
  shows "selectionRange h' t f x = selectionRange h t f x"
proof -
  have "SelectableTreeNode_is h' = SelectableTreeNode_is h"
    using assms by (auto simp: SelectableTreeNode_is_def fun_eq_iff)
  then show ?thesis unfolding selectionRange_def by (simp only:)
qed

lemma selectedNodes_loop_store_cong:
  assumes "\<forall>n. (h' n = None) = (h n = None)"
  shows "selectedNodes_loop h' t acc l es = selectedNodes_loop h t acc l es"
proof (induction es arbitrary: acc l)
  case Nil
  then show ?case by simp
next
  case (Cons e es)
  show ?case
    by (simp add: Let_def selectionRange_store_cong [OF assms] Cons.IH)
qed

lemma selectedNodes_store_cong:
  assumes "\<forall>n. (h' n = None) = (h n = None)"
  shows "selectedNodes h' st = selectedNodes h st"
  by (cases "checkNoDefaultSelection (selectionStack st)")
     (simp_all add: selectedNodes_def selectedNodes_loop_store_cong [OF assms])

lemma selectedNodes_loop_selectable:
  assumes "\<forall>e\<in>set es. h (node e) \<noteq> None" and "\<forall>n\<in>set acc. h n \<noteq> None"
  shows "\<forall>n\<in>set (selectedNodes_loop h t acc l es). h n \<noteq> None"
  using assms
proof (induction es arbitrary: acc l)
  case Nil
  then show ?case by simp
next
  case (Cons e es)
  have e: "h (node e) \<noteq> None" using Cons.prems(1) by simp
  have es: "\<forall>e\<in>set es. h (node e) \<noteq> None" using Cons.prems(1) by simp
  have r: "\<forall>n\<in>set (selectionRange h t (map_option node l) (node e)). h n \<noteq> None"
    using selectionRange_selectable [of _ h t "map_option node l" "node e"] e by blast
  have b: "\<forall>n\<in>set (butlast acc). h n \<noteq> None"
    using Cons.prems(2) by (auto dest: in_set_butlastD)
  show ?case
  proof (cases "type_of e = Some RANGE")
    case True
    let ?popped = "if (case l of None \<Rightarrow> False | Some l \<Rightarrow> type_of l = Some TOGGLE)
                   then butlast acc else acc"
    let ?acc' = "?popped @ selectionRange h t (map_option node l) (node e)"
    have step: "selectedNodes_loop h t acc l (e # es) = selectedNodes_loop h t ?acc' (Some e) es"
      using True by (simp add: Let_def)
    have "\<forall>n\<in>set ?popped. h n \<noteq> None" using b Cons.prems(2) by simp
    then have "\<forall>n\<in>set ?acc'. h n \<noteq> None" using r by (simp add: ball_Un)
    from Cons.IH [OF es this] show ?thesis unfolding step .
  next
    case False
    show ?thesis
    proof (cases "type_of e = Some TOGGLE")
      case True
      have step: "selectedNodes_loop h t acc l (e # es) = selectedNodes_loop h t (acc @ [node e]) (Some e) es"
        using True by (simp add: Let_def)
      have "\<forall>n\<in>set (acc @ [node e]). h n \<noteq> None" using e Cons.prems(2) by simp
      from Cons.IH [OF es this] show ?thesis unfolding step .
    next
      case other: False
      have step: "selectedNodes_loop h t acc l (e # es) = selectedNodes_loop h t acc (Some e) es"
        using False other by (simp add: Let_def)
      from Cons.IH [OF es Cons.prems(2)] show ?thesis unfolding step .
    qed
  qed
qed

lemma selectedNodes_selectable:
  assumes "selectedNodes h st = Inr ns" and "\<forall>e\<in>set (selectionStack st). h (node e) \<noteq> None"
  shows "\<forall>n\<in>set ns. h n \<noteq> None"
proof -
  have "ns = Set_keys (rev (selectedNodes_loop h (tree st) [] None (selectionStack st)))"
    using assms(1)
    by (auto simp: selectedNodes_def checkNoDefaultSelection_def split: if_splits)
  then have "set ns = set (selectedNodes_loop h (tree st) [] None (selectionStack st))"
    by (simp add: Set_keys_set)
  then show ?thesis
    using selectedNodes_loop_selectable [OF assms(2), of "[]" "tree st" None] by simp
qed

lemma unselect_apply: "unselect ns h n = (if n \<in> set ns then Some False else h n)"
  unfolding unselect_def by (induction ns arbitrary: h) auto

lemma select_apply: "select ns h n = (if n \<in> set ns then Some True else h n)"
  unfolding select_def by (induction ns arbitrary: h) auto

lemma set_difference: "set (difference left right) = set left - set right"
  by (auto simp: difference_def indexOf_eq_minus1)

lemma nextState_selectable:
  assumes "nextState h st s = Inr st'"
    and "\<forall>e\<in>set (selectionStack st). h (node e) \<noteq> None"
    and "h (node s) \<noteq> None"
  shows "\<forall>e\<in>set (selectionStack st'). h (node e) \<noteq> None"
proof
  fix e assume "e \<in> set (selectionStack st')"
  from nextState_entries [OF assms(1) this]
  consider "e \<in> set (selectionStack st)" | "node e = node s"
    | f x where "x \<in> set (selectionStack st)"
        and "node e \<in> set (selectionRange h (tree st) f (node x))"
    by auto
  then show "h (node e) \<noteq> None"
  proof cases
    case 1
    then show ?thesis using assms(2) by blast
  next
    case 2
    then show ?thesis using assms(3) by simp
  next
    case 3
    from selectionRange_selectable [OF 3(2)] show ?thesis using assms(2) 3(1) by auto
  qed
qed

lemma addSelection_cases:
  assumes "addSelection h svc a = Inr (h', svc')"
  shows "(h' = h \<and> svc' = svc)
       \<or> (\<exists>s newState oldNodes newNodes.
            node s = target a
          \<and> nextState h (state svc) s = Inr newState
          \<and> selectedNodes h (state svc) = Inr oldNodes
          \<and> selectedNodes h newState = Inr newNodes
          \<and> h' = select (difference newNodes oldNodes) (unselect (difference oldNodes newNodes) h)
          \<and> state svc' = newState)"
proof -
  let ?s = "selection_of a"
  have nd: "node ?s = target a"
    by (cases a) (simp_all add: selection_of_def target_def spread_default_def)
  show ?thesis
  proof (cases "service_validateNode svc (node ?s) = None")
    case True
    then show ?thesis using assms by (simp add: addSelection_def Let_def)
  next
    case False
    then obtain v where v: "service_validateNode svc (node ?s) = Some v" by auto
    then obtain newState where ns: "nextState h (state svc) ?s = Inr newState"
      using assms by (cases "nextState h (state svc) ?s") (simp_all add: addSelection_def Let_def)
    obtain oldNodes where on: "selectedNodes h (state svc) = Inr oldNodes"
      using assms v ns
      by (cases "selectedNodes h (state svc)") (simp_all add: addSelection_def Let_def)
    obtain newNodes where nn: "selectedNodes h newState = Inr newNodes"
      using assms v ns on
      by (cases "selectedNodes h newState") (simp_all add: addSelection_def Let_def)
    let ?U = "difference oldNodes newNodes"
    let ?S = "difference newNodes oldNodes"
    show ?thesis
    proof (cases "length ?U = 0 \<and> length ?S = 0")
      case True
      then show ?thesis using assms v ns on nn
        by (simp add: addSelection_def Let_def)
    next
      case nonempty: False
      have f: "fireSelectionChanged (select ?S (unselect ?U h)) (svc\<lparr>state := newState\<rparr>) = Inr (h', svc')"
        using assms v ns on nn nonempty
        by (simp add: addSelection_def Let_def split: if_splits)
      have "h' = select ?S (unselect ?U h) \<and> state svc' = newState"
      proof (cases "selectedNodes (select ?S (unselect ?U h)) (state (svc\<lparr>state := newState\<rparr>))")
        case (Inl e)
        then show ?thesis using f by (simp add: fireSelectionChanged_def)
      next
        case (Inr fired_nodes)
        then show ?thesis using f by (auto simp: fireSelectionChanged_def)
      qed
      then show ?thesis using nd ns on nn by blast
    qed
  qed
qed

lemma addSelection_invariant:
  assumes step: "addSelection h svc a = Inr (h', svc')"
    and typed: "SelectableTreeNode_is h (target a)"
    and store: "\<forall>n. (h n = None) = (h0 n = None)"
    and stack: "\<forall>e\<in>set (selectionStack (state svc)).
                  (type_of e = Some TOGGLE \<or> type_of e = Some RANGE) \<and> h (node e) \<noteq> None"
    and flags: "\<exists>ns. selectedNodes h (state svc) = Inr ns
                  \<and> (\<forall>N. h0 N \<noteq> Some True \<longrightarrow> (h N = Some True) = (N \<in> set ns))"
  shows "(\<forall>n. (h' n = None) = (h0 n = None))
       \<and> (\<forall>e\<in>set (selectionStack (state svc')).
             (type_of e = Some TOGGLE \<or> type_of e = Some RANGE) \<and> h' (node e) \<noteq> None)
       \<and> (\<exists>ns. selectedNodes h' (state svc') = Inr ns
             \<and> (\<forall>N. h0 N \<noteq> Some True \<longrightarrow> (h' N = Some True) = (N \<in> set ns)))"
proof -
  from addSelection_cases [OF step] show ?thesis
  proof
    assume "h' = h \<and> svc' = svc"
    then show ?thesis using store stack flags by simp
  next
    assume "\<exists>s newState oldNodes newNodes.
            node s = target a
          \<and> nextState h (state svc) s = Inr newState
          \<and> selectedNodes h (state svc) = Inr oldNodes
          \<and> selectedNodes h newState = Inr newNodes
          \<and> h' = select (difference newNodes oldNodes) (unselect (difference oldNodes newNodes) h)
          \<and> state svc' = newState"
    then obtain s newState oldNodes newNodes where
      nd: "node s = target a"
      and ns: "nextState h (state svc) s = Inr newState"
      and on: "selectedNodes h (state svc) = Inr oldNodes"
      and nn: "selectedNodes h newState = Inr newNodes"
      and h': "h' = select (difference newNodes oldNodes) (unselect (difference oldNodes newNodes) h)"
      and st': "state svc' = newState"
      by blast
    have ty': "\<forall>e\<in>set (selectionStack newState). type_of e = Some TOGGLE \<or> type_of e = Some RANGE"
      using nextState_types [OF ns] stack by blast
    have sel': "\<forall>e\<in>set (selectionStack newState). h (node e) \<noteq> None"
      using nextState_selectable [OF ns] stack typed nd by (simp add: SelectableTreeNode_is_def)
    have oldsel: "\<forall>n\<in>set oldNodes. h n \<noteq> None"
      using selectedNodes_selectable [OF on] stack by blast
    have newsel: "\<forall>n\<in>set newNodes. h n \<noteq> None"
      using selectedNodes_selectable [OF nn sel'] .
    have app: "h' n = (if n \<in> set newNodes - set oldNodes then Some True
                       else if n \<in> set oldNodes - set newNodes then Some False else h n)" for n
      unfolding h' by (simp add: select_apply unselect_apply set_difference)
    have same: "\<forall>n. (h' n = None) = (h n = None)"
    proof
      fix n
      show "(h' n = None) = (h n = None)"
      proof (cases "n \<in> set newNodes \<or> n \<in> set oldNodes")
        case True
        then have "h n \<noteq> None" using oldsel newsel by blast
        moreover have "h' n \<noteq> None" using True calculation by (auto simp add: app)
        ultimately show ?thesis by auto
      next
        case False
        then show ?thesis by (simp add: app)
      qed
    qed
    have c1: "\<forall>n. (h' n = None) = (h0 n = None)" using same store by simp
    have c2: "\<forall>e\<in>set (selectionStack (state svc')).
             (type_of e = Some TOGGLE \<or> type_of e = Some RANGE) \<and> h' (node e) \<noteq> None"
      using ty' sel' same st' by simp
    have nn': "selectedNodes h' (state svc') = Inr newNodes"
      using selectedNodes_store_cong [OF same, of newState] nn st' by simp
    from flags on have old: "\<forall>N. h0 N \<noteq> Some True \<longrightarrow> (h N = Some True) = (N \<in> set oldNodes)"
      by auto
    have c3: "\<forall>N. h0 N \<noteq> Some True \<longrightarrow> (h' N = Some True) = (N \<in> set newNodes)"
    proof (intro allI impI)
      fix N assume "h0 N \<noteq> Some True"
      then have o: "(h N = Some True) = (N \<in> set oldNodes)" using old by blast
      show "(h' N = Some True) = (N \<in> set newNodes)"
        by (cases "N \<in> set newNodes"; cases "N \<in> set oldNodes") (simp_all add: app o)
    qed
    show ?thesis
    proof (intro conjI)
      show "\<forall>n. (h' n = None) = (h0 n = None)" by (rule c1)
      show "\<forall>e\<in>set (selectionStack (state svc')).
             (type_of e = Some TOGGLE \<or> type_of e = Some RANGE) \<and> h' (node e) \<noteq> None"
        by (rule c2)
      show "\<exists>ns. selectedNodes h' (state svc') = Inr ns
             \<and> (\<forall>N. h0 N \<noteq> Some True \<longrightarrow> (h' N = Some True) = (N \<in> set ns))"
        using nn' c3 by blast
    qed
  qed
qed

lemma service_reachable_invariant:
  assumes "service_reachable h0 t h svc"
  shows "(\<forall>n. (h n = None) = (h0 n = None))
       \<and> (\<forall>e\<in>set (selectionStack (state svc)).
             (type_of e = Some TOGGLE \<or> type_of e = Some RANGE) \<and> h (node e) \<noteq> None)
       \<and> (\<exists>ns. selectedNodes h (state svc) = Inr ns
             \<and> (\<forall>N. h0 N \<noteq> Some True \<longrightarrow> (h N = Some True) = (N \<in> set ns)))"
  using assms
proof (induction rule: service_reachable.induct)
  case start
  then show ?case
    by (simp add: init_def new_TreeSelectionState_def selectedNodes_def checkNoDefaultSelection_def)
next
  case (call h svc a h' svc')
  from call.IH have store: "\<forall>n. (h n = None) = (h0 n = None)" by blast
  from call.IH have stack: "\<forall>e\<in>set (selectionStack (state svc)).
      (type_of e = Some TOGGLE \<or> type_of e = Some RANGE) \<and> h (node e) \<noteq> None" by blast
  from call.IH have flags: "\<exists>ns. selectedNodes h (state svc) = Inr ns
      \<and> (\<forall>N. h0 N \<noteq> Some True \<longrightarrow> (h N = Some True) = (N \<in> set ns))" by blast
  show ?case by (rule addSelection_invariant [OF call.hyps(3) call.hyps(2) store stack flags])
qed

section \<open>Toggling a node that is not selected\<close>

lemma selectedNodes_loop_Cons:
  "\<exists>acc'. selectedNodes_loop h t acc l (e # es) = selectedNodes_loop h t acc' (Some e) es"
  unfolding selectedNodes_loop.simps Let_def by blast

lemma selectedNodes_loop_keeps:
  "set (if (case l of None \<Rightarrow> False | Some s \<Rightarrow> type_of s = Some TOGGLE) then butlast acc else acc)
     \<subseteq> set (selectedNodes_loop h t acc l es)"
proof (induction es arbitrary: acc l)
  case Nil
  then show ?case by (auto dest: in_set_butlastD)
next
  case (Cons e es)
  let ?popped = "if (case l of None \<Rightarrow> False | Some s \<Rightarrow> type_of s = Some TOGGLE)
                 then butlast acc else acc"
  have p: "set ?popped \<subseteq> set acc" by (auto dest: in_set_butlastD)
  show ?case
  proof (cases "type_of e = Some RANGE")
    case True
    let ?acc' = "?popped @ selectionRange h t (map_option node l) (node e)"
    have step: "selectedNodes_loop h t acc l (e # es) = selectedNodes_loop h t ?acc' (Some e) es"
      using True by (simp add: Let_def)
    have "set ?acc' \<subseteq> set (selectedNodes_loop h t ?acc' (Some e) es)"
      using Cons.IH [of "Some e" ?acc'] True by simp
    then show ?thesis unfolding step by auto
  next
    case False
    show ?thesis
    proof (cases "type_of e = Some TOGGLE")
      case True
      have step: "selectedNodes_loop h t acc l (e # es)
                  = selectedNodes_loop h t (acc @ [node e]) (Some e) es"
        using True by (simp add: Let_def)
      have "set acc \<subseteq> set (selectedNodes_loop h t (acc @ [node e]) (Some e) es)"
        using Cons.IH [of "Some e" "acc @ [node e]"] True by simp
      then show ?thesis unfolding step using p by blast
    next
      case other: False
      have step: "selectedNodes_loop h t acc l (e # es) = selectedNodes_loop h t acc (Some e) es"
        using False other by (simp add: Let_def)
      have "set acc \<subseteq> set (selectedNodes_loop h t acc (Some e) es)"
        using Cons.IH [of "Some e" acc] other by simp
      then show ?thesis unfolding step using p by blast
    qed
  qed
qed

lemma selectedNodes_loop_range:
  assumes "type_of e = Some RANGE"
  shows "set (selectionRange h t (if pre = [] then map_option node l else Some (node (last pre))) (node e))
           \<subseteq> set (selectedNodes_loop h t acc l (pre @ e # post))"
proof (induction pre arbitrary: acc l)
  case Nil
  let ?popped = "if (case l of None \<Rightarrow> False | Some s \<Rightarrow> type_of s = Some TOGGLE)
                 then butlast acc else acc"
  let ?acc' = "?popped @ selectionRange h t (map_option node l) (node e)"
  have step: "selectedNodes_loop h t acc l (e # post) = selectedNodes_loop h t ?acc' (Some e) post"
    using assms by (simp add: Let_def)
  have "set ?acc' \<subseteq> set (selectedNodes_loop h t ?acc' (Some e) post)"
    using selectedNodes_loop_keeps [of "Some e" ?acc' h t post] assms by simp
  then show ?case using step by auto
next
  case (Cons p pre)
  obtain acc' where step: "selectedNodes_loop h t acc l (p # (pre @ e # post))
                           = selectedNodes_loop h t acc' (Some p) (pre @ e # post)"
    using selectedNodes_loop_Cons by blast
  have "set (selectionRange h t (if pre = [] then map_option node (Some p) else Some (node (last pre))) (node e))
          \<subseteq> set (selectedNodes_loop h t acc' (Some p) (pre @ e # post))"
    by (rule Cons.IH)
  moreover have "(if p # pre = [] then map_option node l else Some (node (last (p # pre))))
        = (if pre = [] then map_option node (Some p) else Some (node (last pre)))"
    by simp
  ultimately show ?case unfolding append_Cons step by (simp only:)
qed

lemma selectedNodes_loop_no_range:
  assumes "\<forall>e\<in>set es. type_of e \<noteq> Some RANGE"
  shows "set acc \<subseteq> set (selectedNodes_loop h t acc l es)"
  using assms
proof (induction es arbitrary: acc l)
  case Nil
  then show ?case by simp
next
  case (Cons e es)
  have es: "\<forall>e\<in>set es. type_of e \<noteq> Some RANGE" using Cons.prems by simp
  have e: "type_of e \<noteq> Some RANGE" using Cons.prems by simp
  show ?case
  proof (cases "type_of e = Some TOGGLE")
    case True
    have step: "selectedNodes_loop h t acc l (e # es)
                = selectedNodes_loop h t (acc @ [node e]) (Some e) es"
      using True by (simp add: Let_def)
    show ?thesis unfolding step using Cons.IH [OF es, of "acc @ [node e]" "Some e"] by simp
  next
    case False
    have step: "selectedNodes_loop h t acc l (e # es) = selectedNodes_loop h t acc (Some e) es"
      using False e by (simp add: Let_def)
    show ?thesis unfolding step using Cons.IH [OF es, of acc "Some e"] by simp
  qed
qed

lemma selectedNodes_loop_toggle:
  assumes "type_of e = Some TOGGLE" and "\<forall>p\<in>set post. type_of p \<noteq> Some RANGE"
  shows "node e \<in> set (selectedNodes_loop h t acc l (pre @ e # post))"
proof (induction pre arbitrary: acc l)
  case Nil
  have step: "selectedNodes_loop h t acc l (e # post)
              = selectedNodes_loop h t (acc @ [node e]) (Some e) post"
    using assms(1) by (simp add: Let_def)
  show ?case using selectedNodes_loop_no_range [OF assms(2), of "acc @ [node e]" h t "Some e"] step
    by simp
next
  case (Cons p pre)
  obtain acc' where step: "selectedNodes_loop h t acc l (p # (pre @ e # post))
                           = selectedNodes_loop h t acc' (Some p) (pre @ e # post)"
    using selectedNodes_loop_Cons by blast
  show ?case unfolding append_Cons step by (rule Cons.IH)
qed

lemma handleToggle_split_None:
  assumes "k \<le> length copy"
    and "\<forall>i<k. type_of (copy ! i) = Some RANGE \<longrightarrow>
           x \<notin> set (selectionRange h t (if i = 0 then None else Some (node (copy ! (i - 1))))
                      (node (copy ! i)))"
  shows "handleToggle_split h t copy x k = None"
  using assms
proof (induction k)
  case 0
  then show ?case by simp
next
  case (Suc k)
  have ih: "handleToggle_split h t copy x k = None" using Suc by simp
  have "type_of (copy ! k) = Some RANGE \<longrightarrow>
          indexOf (selectionRange h t (if k = 0 then None else Some (node (copy ! (k - 1))))
                     (node (copy ! k))) x = - 1"
    using Suc.prems(2) by (simp add: indexOf_eq_minus1)
  then show ?case using ih by (simp add: Let_def)
qed

lemma handleToggle_toRemove_none:
  assumes "\<forall>i<k. (\<forall>j. i \<le> j \<and> j < k \<longrightarrow> type_of (copy ! j) \<noteq> Some RANGE) \<longrightarrow> node (copy ! i) \<noteq> x"
  shows "handleToggle_toRemove copy x k acc = acc"
  using assms
proof (induction k arbitrary: acc)
  case 0
  then show ?case by simp
next
  case (Suc k)
  show ?case
  proof (cases "type_of (copy ! k) = Some RANGE")
    case True
    then show ?thesis by simp
  next
    case False
    have "\<forall>j. k \<le> j \<and> j < Suc k \<longrightarrow> type_of (copy ! j) \<noteq> Some RANGE"
      using False by (auto simp: less_Suc_eq_le)
    then have nk: "node (copy ! k) \<noteq> x" using Suc.prems by blast
    have "\<forall>i<k. (\<forall>j. i \<le> j \<and> j < k \<longrightarrow> type_of (copy ! j) \<noteq> Some RANGE) \<longrightarrow> node (copy ! i) \<noteq> x"
    proof (intro allI impI)
      fix i assume i: "i < k" and a: "\<forall>j. i \<le> j \<and> j < k \<longrightarrow> type_of (copy ! j) \<noteq> Some RANGE"
      have "\<forall>j. i \<le> j \<and> j < Suc k \<longrightarrow> type_of (copy ! j) \<noteq> Some RANGE"
        using a False by (auto simp: less_Suc_eq)
      moreover have "i < Suc k" using i by simp
      ultimately show "node (copy ! i) \<noteq> x" using Suc.prems by blast
    qed
    from Suc.IH [OF this] show ?thesis using False nk by simp
  qed
qed

lemma not_selected_no_range:
  assumes "x \<notin> set (selectedNodes_loop h t [] None S)"
  shows "\<forall>i<length S. type_of (S ! i) = Some RANGE \<longrightarrow>
           x \<notin> set (selectionRange h t (if i = 0 then None else Some (node (S ! (i - 1))))
                      (node (S ! i)))"
proof (intro allI impI)
  fix i assume i: "i < length S" and r: "type_of (S ! i) = Some RANGE"
  have S: "S = take i S @ S ! i # drop (Suc i) S" using i by (rule id_take_nth_drop)
  have "set (selectionRange h t
               (if take i S = [] then map_option node (None :: TreeSelection option)
                else Some (node (last (take i S))))
               (node (S ! i)))
          \<subseteq> set (selectedNodes_loop h t [] None (take i S @ S ! i # drop (Suc i) S))"
    using selectedNodes_loop_range [OF r, where pre = "take i S" and l = None
        and post = "drop (Suc i) S" and h = h and t = t and acc = "[]"] .
  moreover have "(if take i S = [] then map_option node (None :: TreeSelection option)
                else Some (node (last (take i S))))
        = (if i = 0 then None else Some (node (S ! (i - 1))))"
    using i by (auto simp: last_conv_nth)
  ultimately have "set (selectionRange h t (if i = 0 then None else Some (node (S ! (i - 1))))
                          (node (S ! i)))
          \<subseteq> set (selectedNodes_loop h t [] None S)"
    using S by simp
  then show "x \<notin> set (selectionRange h t (if i = 0 then None else Some (node (S ! (i - 1))))
                        (node (S ! i)))"
    using assms by blast
qed

lemma not_selected_no_toggle:
  assumes "x \<notin> set (selectedNodes_loop h t [] None S)"
    and "\<forall>e\<in>set S. type_of e = Some TOGGLE \<or> type_of e = Some RANGE"
  shows "\<forall>i<length S. (\<forall>j. i \<le> j \<and> j < length S \<longrightarrow> type_of (S ! j) \<noteq> Some RANGE)
           \<longrightarrow> node (S ! i) \<noteq> x"
proof (intro allI impI)
  fix i assume i: "i < length S"
    and a: "\<forall>j. i \<le> j \<and> j < length S \<longrightarrow> type_of (S ! j) \<noteq> Some RANGE"
  have S: "S = take i S @ S ! i # drop (Suc i) S" using i by (rule id_take_nth_drop)
  have "type_of (S ! i) \<noteq> Some RANGE" using a i by simp
  then have tg: "type_of (S ! i) = Some TOGGLE" using assms(2) i by auto
  have post: "\<forall>p\<in>set (drop (Suc i) S). type_of p \<noteq> Some RANGE"
  proof
    fix p assume "p \<in> set (drop (Suc i) S)"
    then obtain k where k: "k < length (drop (Suc i) S)" and p: "p = drop (Suc i) S ! k"
      by (auto simp: in_set_conv_nth)
    have "p = S ! (Suc i + k)" using p k by simp
    moreover have "Suc i + k < length S" using k by simp
    ultimately show "type_of p \<noteq> Some RANGE" using a by simp
  qed
  have "node (S ! i) \<in> set (selectedNodes_loop h t [] None (take i S @ S ! i # drop (Suc i) S))"
    using selectedNodes_loop_toggle [OF tg post, where pre = "take i S" and l = None
        and h = h and t = t and acc = "[]"] .
  then have "node (S ! i) \<in> set (selectedNodes_loop h t [] None S)" using S by simp
  then show "node (S ! i) \<noteq> x" using assms(1) by blast
qed

lemma handleToggle_path:
  assumes "checkNoDefaultSelection (selectionStack st) = Inr (selectionStack st)"
    and "\<not> (length (selectionStack st) = 1 \<and> type_of (selectionStack st ! 0) = Some TOGGLE
             \<and> node (selectionStack st ! 0) = x)"
    and "handleToggle_split h (tree st) (selectionStack st) x (length (selectionStack st)) = None"
    and "handleToggle_toRemove (selectionStack st) x (length (selectionStack st)) [] = rem"
  shows "handleToggle h st x
         = Inr \<lparr>tree = tree st,
                selectionStack =
                  (if length rem > 0 then fold (\<lambda>index c. splice1 index [] c) rem (selectionStack st)
                   else fold (\<lambda>index c. splice1 index [] c) rem (selectionStack st)
                        @ [\<lparr>node = x, type = Given TOGGLE\<rparr>])\<rparr>"
  using assms by (auto simp: handleToggle_def Let_def)

lemma nextState_toggle: "nextState h st \<lparr>node = x, type = Given TOGGLE\<rparr> = handleToggle h st x"
  by (simp add: nextState_def spread_default_def type_of_def)

lemma toggle_twice_restores:
  assumes ne: "selectionStack st \<noteq> []"
    and sel: "selectedNodes h st = Inr ns"
    and x: "X \<notin> set ns"
  shows "nextState h st \<lparr>node = X, type = Given TOGGLE\<rparr>
           = Inr \<lparr>tree = tree st,
                  selectionStack = selectionStack st @ [\<lparr>node = X, type = Given TOGGLE\<rparr>]\<rparr>"
    and "nextState h \<lparr>tree = tree st,
                      selectionStack = selectionStack st @ [\<lparr>node = X, type = Given TOGGLE\<rparr>]\<rparr>
           \<lparr>node = X, type = Given TOGGLE\<rparr> = Inr st"
proof -
  let ?S = "selectionStack st"
  let ?T = "\<lparr>node = X, type = Given TOGGLE\<rparr>"
  let ?S1 = "?S @ [?T]"
  have chk: "checkNoDefaultSelection ?S = Inr ?S"
    using sel by (auto simp: selectedNodes_def checkNoDefaultSelection_def split: if_splits)
  have types: "\<forall>e\<in>set ?S. type_of e = Some TOGGLE \<or> type_of e = Some RANGE"
  proof
    fix e assume e: "e \<in> set ?S"
    have "\<not> list_ex (\<lambda>s. type_of s = None \<or> type_of s = Some DEFAULT) ?S"
      using sel by (auto simp: selectedNodes_def checkNoDefaultSelection_def split: if_splits)
    then have "type_of e \<noteq> None \<and> type_of e \<noteq> Some DEFAULT" using e by (auto simp: list_ex_iff)
    then show "type_of e = Some TOGGLE \<or> type_of e = Some RANGE"
      by (cases "type_of e") (auto intro: SelectionType.exhaust)
  qed
  have "ns = Set_keys (rev (selectedNodes_loop h (tree st) [] None ?S))"
    using sel chk by (simp add: selectedNodes_def)
  then have xl: "X \<notin> set (selectedNodes_loop h (tree st) [] None ?S)"
    using x by (simp add: Set_keys_set)
  note PA = not_selected_no_range [OF xl]
  note PB = not_selected_no_toggle [OF xl types]
  have sole: "\<not> (length ?S = 1 \<and> type_of (?S ! 0) = Some TOGGLE \<and> node (?S ! 0) = X)"
  proof
    assume a: "length ?S = 1 \<and> type_of (?S ! 0) = Some TOGGLE \<and> node (?S ! 0) = X"
    then have "\<forall>j. 0 \<le> j \<and> j < length ?S \<longrightarrow> type_of (?S ! j) \<noteq> Some RANGE" by auto
    moreover have "0 < length ?S" using a by simp
    ultimately have "node (?S ! 0) \<noteq> X" using PB by blast
    then show False using a by simp
  qed
  have split0: "handleToggle_split h (tree st) ?S X (length ?S) = None"
    by (rule handleToggle_split_None [OF le_refl PA])
  have rem0: "handleToggle_toRemove ?S X (length ?S) [] = []"
    by (rule handleToggle_toRemove_none [OF PB])
  have "handleToggle h st X = Inr \<lparr>tree = tree st, selectionStack = ?S1\<rparr>"
    using handleToggle_path [OF chk sole split0 rem0] by simp
  then show "nextState h st ?T = Inr \<lparr>tree = tree st, selectionStack = ?S1\<rparr>"
    by (simp only: nextState_toggle)
  define st1 where "st1 = \<lparr>tree = tree st, selectionStack = ?S1\<rparr>"
  have s1: "selectionStack st1 = ?S1" and t1: "tree st1 = tree st" by (simp_all add: st1_def)
  have types1: "\<forall>e\<in>set ?S1. type_of e = Some TOGGLE \<or> type_of e = Some RANGE"
    using types by (simp add: type_of_def)
  have chk1: "checkNoDefaultSelection (selectionStack st1) = Inr (selectionStack st1)"
    unfolding s1 by (rule checkNoDefaultSelection_Inr [OF types1])
  have "length ?S1 \<noteq> 1" using ne by (cases ?S) simp_all
  then have sole1: "\<not> (length (selectionStack st1) = 1
                       \<and> type_of (selectionStack st1 ! 0) = Some TOGGLE
                       \<and> node (selectionStack st1 ! 0) = X)"
    unfolding s1 by blast
  have PA1: "\<forall>i<length ?S1. type_of (?S1 ! i) = Some RANGE \<longrightarrow>
           X \<notin> set (selectionRange h (tree st) (if i = 0 then None else Some (node (?S1 ! (i - 1))))
                      (node (?S1 ! i)))"
  proof (intro allI impI)
    fix i assume i: "i < length ?S1" and r: "type_of (?S1 ! i) = Some RANGE"
    have "i \<noteq> length ?S" using r by (auto simp: type_of_def)
    then have il: "i < length ?S" using i by simp
    then have eqs: "?S1 ! i = ?S ! i" "i \<noteq> 0 \<Longrightarrow> ?S1 ! (i - 1) = ?S ! (i - 1)"
      by (simp_all add: nth_append)
    from PA il r
    have "X \<notin> set (selectionRange h (tree st) (if i = 0 then None else Some (node (?S ! (i - 1))))
                      (node (?S ! i)))"
      unfolding eqs(1) by blast
    then show "X \<notin> set (selectionRange h (tree st) (if i = 0 then None else Some (node (?S1 ! (i - 1))))
                      (node (?S1 ! i)))"
      using eqs by (cases "i = 0") simp_all
  qed
  have split1: "handleToggle_split h (tree st1) (selectionStack st1) X (length (selectionStack st1)) = None"
    unfolding s1 t1 by (rule handleToggle_split_None [OF le_refl PA1])
  have PB1: "\<forall>i<length ?S. (\<forall>j. i \<le> j \<and> j < length ?S \<longrightarrow> type_of (?S1 ! j) \<noteq> Some RANGE)
           \<longrightarrow> node (?S1 ! i) \<noteq> X"
  proof (intro allI impI)
    fix i assume i: "i < length ?S"
      and a: "\<forall>j. i \<le> j \<and> j < length ?S \<longrightarrow> type_of (?S1 ! j) \<noteq> Some RANGE"
    have "\<forall>j. i \<le> j \<and> j < length ?S \<longrightarrow> type_of (?S ! j) \<noteq> Some RANGE"
    proof (intro allI impI)
      fix j assume j: "i \<le> j \<and> j < length ?S"
      then have "?S1 ! j = ?S ! j" by (simp add: nth_append)
      then show "type_of (?S ! j) \<noteq> Some RANGE" using a j by metis
    qed
    then have "node (?S ! i) \<noteq> X" using PB i by blast
    moreover have "?S1 ! i = ?S ! i" using i by (simp add: nth_append)
    ultimately show "node (?S1 ! i) \<noteq> X" by simp
  qed
  have top: "?S1 ! length ?S = ?T" by simp
  have "handleToggle_toRemove ?S1 X (Suc (length ?S)) []
        = handleToggle_toRemove ?S1 X (length ?S) ([] @ [length ?S])"
    unfolding handleToggle_toRemove.simps Let_def top by (simp add: type_of_def)
  also have "\<dots> = [] @ [length ?S]" by (rule handleToggle_toRemove_none [OF PB1])
  finally have rem1: "handleToggle_toRemove (selectionStack st1) X (length (selectionStack st1)) []
                      = [length ?S]"
    unfolding s1 by simp
  have "fold (\<lambda>index c. splice1 index [] c) [length ?S] ?S1 = ?S"
    by (simp add: splice1_def)
  then have "handleToggle h st1 X = Inr \<lparr>tree = tree st, selectionStack = ?S\<rparr>"
    using handleToggle_path [OF chk1 sole1 split1 rem1] unfolding s1 t1 by simp
  then show "nextState h \<lparr>tree = tree st, selectionStack = ?S1\<rparr> ?T = Inr st"
    unfolding nextState_toggle st1_def by simp
qed

section \<open>The claims\<close>

text \<open>
  The claim C1 as it is written fails on the empty state: there the first toggle of X
  leaves the single entry TOGGLE(X), and the second toggle is the no-op of C2, so X stays
  selected (the test 11 of the repository).
\<close>

theorem C1_toggle_twice_on_empty_state_counterexample:
  "selectedIds mock_selected
     (nextStates mock_selected (new_TreeSelectionState mock_tree) [toggle_of ''1'', toggle_of ''1''])
   = Inr [''1'']
   \<and> id' (node (toggle_of ''1'')) = ''1''"
  by code_simp

text \<open>
  C1, amended. From a state with a stack that is not empty and in which X is not selected,
  two consecutive TOGGLE selections of X lead back to that state: the first pushes
  TOGGLE(X), the second removes it again, and \<^verbatim>\<open>selectedNodes()\<close> does not contain X.
  From the empty state the second toggle changes nothing and X stays selected.
\<close>

theorem C1_toggle_twice_restores_stack:
  assumes "selectionStack st \<noteq> []" and "selectedNodes h st = Inr ns" and "X \<notin> set ns"
  shows "nextState h st \<lparr>node = X, type = Given TOGGLE\<rparr>
          = Inr \<lparr>tree = tree st,
                 selectionStack = selectionStack st @ [\<lparr>node = X, type = Given TOGGLE\<rparr>]\<rparr>
       \<and> nextStates h st [\<lparr>node = X, type = Given TOGGLE\<rparr>, \<lparr>node = X, type = Given TOGGLE\<rparr>] = Inr st
       \<and> (\<exists>st2 ns2. nextStates h st [\<lparr>node = X, type = Given TOGGLE\<rparr>, \<lparr>node = X, type = Given TOGGLE\<rparr>]
                       = Inr st2
                   \<and> selectedNodes h st2 = Inr ns2 \<and> X \<notin> set ns2)
       \<and> nextStates h (new_TreeSelectionState t)
            [\<lparr>node = X, type = Given TOGGLE\<rparr>, \<lparr>node = X, type = Given TOGGLE\<rparr>]
          = Inr \<lparr>tree = t, selectionStack = [\<lparr>node = X, type = Given TOGGLE\<rparr>]\<rparr>
       \<and> selectedNodes h \<lparr>tree = t, selectionStack = [\<lparr>node = X, type = Given TOGGLE\<rparr>]\<rparr> = Inr [X]"
proof -
  let ?T = "\<lparr>node = X, type = Given TOGGLE\<rparr>"
  have twice: "nextStates h st [?T, ?T] = Inr st"
    using toggle_twice_restores [OF assms] by simp
  have empty: "nextStates h (new_TreeSelectionState t) [?T, ?T]
               = Inr \<lparr>tree = t, selectionStack = [?T]\<rparr>"
    by (simp add: nextState_def spread_default_def type_of_def handleToggle_def
        checkNoDefaultSelection_def new_TreeSelectionState_def)
  have one: "selectedNodes h \<lparr>tree = t, selectionStack = [?T]\<rparr> = Inr [X]"
    by (simp add: selectedNodes_def checkNoDefaultSelection_def type_of_def)
  show ?thesis using toggle_twice_restores(1) [OF assms] twice empty one assms(2,3) by blast
qed

theorem C1_toggle_twice_restores_stack_witness:
  "nextStates mock_selected \<lparr>tree = mock_tree, selectionStack = [toggle_of ''1.1'']\<rparr>
      [\<lparr>node = findNode ''1.2'', type = Given TOGGLE\<rparr>, \<lparr>node = findNode ''1.2'', type = Given TOGGLE\<rparr>]
    = Inr \<lparr>tree = mock_tree, selectionStack = [toggle_of ''1.1'']\<rparr>"
proof -
  have a1: "selectionStack \<lparr>tree = mock_tree, selectionStack = [toggle_of ''1.1'']\<rparr> \<noteq> []" by simp
  have a2: "selectedNodes mock_selected \<lparr>tree = mock_tree, selectionStack = [toggle_of ''1.1'']\<rparr>
            = Inr [findNode ''1.1'']"
    by (simp add: selectedNodes_def checkNoDefaultSelection_def type_of_def toggle_of_def)
  have a3: "findNode ''1.2'' \<notin> set [findNode ''1.1'']" by code_simp
  show ?thesis using C1_toggle_twice_restores_stack [OF a1 a2 a3] by blast
qed

text \<open>
  C2. On a state whose stack is the single entry TOGGLE(X), \<^verbatim>\<open>nextState\<close> with a TOGGLE
  selection of X returns the same state, and \<^verbatim>\<open>selectedNodes()\<close> is exactly \<open>[X]\<close>.
\<close>

theorem C2_toggle_of_sole_selection_is_noop:
  "nextState h \<lparr>tree = t, selectionStack = [\<lparr>node = X, type = Given TOGGLE\<rparr>]\<rparr>
       \<lparr>node = X, type = Given TOGGLE\<rparr>
     = Inr \<lparr>tree = t, selectionStack = [\<lparr>node = X, type = Given TOGGLE\<rparr>]\<rparr>
   \<and> selectedNodes h \<lparr>tree = t, selectionStack = [\<lparr>node = X, type = Given TOGGLE\<rparr>]\<rparr>
     = Inr [X]"
  by (simp add: nextState_def spread_default_def type_of_def handleToggle_def
      checkNoDefaultSelection_def selectedNodes_def)

text \<open>
  C3. On the fixture tree, all composite nodes expanded, the sequence toggle(1.1),
  toggle(1.1.2), toggle(1.2.1.1), toggle(1.2), range(1.3) from the empty state selects
  1.3, 1.2.3, 1.2.2, 1.2.1.2, 1.2.1.1, 1.2.1, 1.2, 1.1.2, 1.1, in this order.
\<close>

theorem C3_fixture_toggles_then_range:
  "selectedIds mock_selected
     (nextStates mock_selected (new_TreeSelectionState mock_tree)
        [toggle_of ''1.1'', toggle_of ''1.1.2'', toggle_of ''1.2.1.1'', toggle_of ''1.2'',
         range_of ''1.3''])
   = Inr [''1.3'', ''1.2.3'', ''1.2.2'', ''1.2.1.2'', ''1.2.1.1'', ''1.2.1'', ''1.2'',
          ''1.1.2'', ''1.1'']"
  by code_simp

text \<open>
  C4. A second consecutive RANGE replaces the range before it: on the fixture tree
  toggle(1.1), toggle(1.2.1.1), range(1.2.3), range(1.2.1.2) selects 1.2.1.2, 1.2.1.1, 1.1;
  and on every stack of TOGGLE and RANGE entries whose top entry is a RANGE, \<^verbatim>\<open>nextState\<close>
  with a RANGE selection of N puts RANGE(N) in the place of that top entry.
\<close>

theorem C4_second_range_replaces_first:
  "selectedIds mock_selected
     (nextStates mock_selected (new_TreeSelectionState mock_tree)
        [toggle_of ''1.1'', toggle_of ''1.2.1.1'', range_of ''1.2.3'', range_of ''1.2.1.2''])
   = Inr [''1.2.1.2'', ''1.2.1.1'', ''1.1'']
   \<and> ((\<forall>e\<in>set S. type_of e = Some TOGGLE \<or> type_of e = Some RANGE) \<longrightarrow>
        nextState h \<lparr>tree = t, selectionStack = S @ [\<lparr>node = B, type = Given RANGE\<rparr>]\<rparr>
            \<lparr>node = N, type = Given RANGE\<rparr>
          = Inr \<lparr>tree = t, selectionStack = S @ [\<lparr>node = N, type = Given RANGE\<rparr>]\<rparr>)"
proof
  show "selectedIds mock_selected
     (nextStates mock_selected (new_TreeSelectionState mock_tree)
        [toggle_of ''1.1'', toggle_of ''1.2.1.1'', range_of ''1.2.3'', range_of ''1.2.1.2''])
   = Inr [''1.2.1.2'', ''1.2.1.1'', ''1.1'']"
    by code_simp
next
  show "(\<forall>e\<in>set S. type_of e = Some TOGGLE \<or> type_of e = Some RANGE) \<longrightarrow>
        nextState h \<lparr>tree = t, selectionStack = S @ [\<lparr>node = B, type = Given RANGE\<rparr>]\<rparr>
            \<lparr>node = N, type = Given RANGE\<rparr>
          = Inr \<lparr>tree = t, selectionStack = S @ [\<lparr>node = N, type = Given RANGE\<rparr>]\<rparr>"
    using handleRange_on_range by blast
qed

theorem C4_second_range_replaces_first_witness:
  "nextState mock_selected
        \<lparr>tree = mock_tree,
         selectionStack = [toggle_of ''1.1'', range_of ''1.2.3'']
                          @ [\<lparr>node = findNode ''1.2.2'', type = Given RANGE\<rparr>]\<rparr>
        \<lparr>node = findNode ''1.3'', type = Given RANGE\<rparr>
      = Inr \<lparr>tree = mock_tree,
             selectionStack = [toggle_of ''1.1'', range_of ''1.2.3'']
                              @ [\<lparr>node = findNode ''1.3'', type = Given RANGE\<rparr>]\<rparr>"
proof -
  have h: "\<forall>e\<in>set [toggle_of ''1.1'', range_of ''1.2.3''].
             type_of e = Some TOGGLE \<or> type_of e = Some RANGE"
    by (simp add: toggle_of_def range_of_def type_of_def)
  show ?thesis
    using h C4_second_range_replaces_first
      [of "[toggle_of ''1.1'', range_of ''1.2.3'']" mock_selected mock_tree
          "findNode ''1.2.2''" "findNode ''1.3''"]
    by blast
qed

text \<open>
  C5. Whatever the stack holds, \<^verbatim>\<open>nextState\<close> with a DEFAULT selection of N (the type
  given, or left out) returns the state whose stack is the single entry TOGGLE(N); on the
  fixture tree toggle(1), toggle(1.1), default(1.2) selects exactly 1.2.
\<close>

theorem C5_default_resets_history:
  "nextState h st \<lparr>node = N, type = Given DEFAULT\<rparr>
     = Inr \<lparr>tree = tree st, selectionStack = [\<lparr>node = N, type = Given TOGGLE\<rparr>]\<rparr>
   \<and> nextState h st \<lparr>node = N, type = Absent\<rparr>
     = Inr \<lparr>tree = tree st, selectionStack = [\<lparr>node = N, type = Given TOGGLE\<rparr>]\<rparr>
   \<and> selectedIds mock_selected
       (nextStates mock_selected (new_TreeSelectionState mock_tree)
          [toggle_of ''1'', toggle_of ''1.1'', default_of ''1.2''])
     = Inr [''1.2'']"
proof -
  have "selectedIds mock_selected
       (nextStates mock_selected (new_TreeSelectionState mock_tree)
          [toggle_of ''1'', toggle_of ''1.1'', default_of ''1.2''])
     = Inr [''1.2'']"
    by code_simp
  then show ?thesis
    by (simp add: nextState_def spread_default_def type_of_def handleDefault_def)
qed

text \<open>
  C6. After every sequence of \<^verbatim>\<open>addSelection\<close> calls on the service of a tree, every node N
  that started with \<^verbatim>\<open>selected\<close> not true (so every node of a tree whose nodes all start
  with \<^verbatim>\<open>selected === false\<close>) has \<^verbatim>\<open>selected === true\<close> exactly when N is among the
  \<^verbatim>\<open>selectedNodes\<close> of the service.
\<close>

theorem C6_selected_flags_mirror_selection:
  assumes "service_reachable h0 t h svc" and "h0 N \<noteq> Some True"
  shows "\<exists>ns. service_selectedNodes h svc = Inr ns \<and> ((h N = Some True) = (N \<in> set ns))"
proof -
  from service_reachable_invariant [OF assms(1)]
  obtain ns where ns: "selectedNodes h (state svc) = Inr ns"
    and fl: "\<forall>M. h0 M \<noteq> Some True \<longrightarrow> (h M = Some True) = (M \<in> set ns)"
    by blast
  have "(h N = Some True) = (N \<in> set ns)" using fl assms(2) by blast
  then show ?thesis using ns by (simp add: service_selectedNodes_def)
qed

theorem C6_selected_flags_mirror_selection_witness:
  "\<exists>ns. service_selectedNodes (select [findNode ''1.1''] (unselect [] mock_selected))
            ((init mock_tree)\<lparr>state := \<lparr>tree = mock_tree, selectionStack = [toggle_of ''1.1'']\<rparr>,
                               onSelectionChanged := [[findNode ''1.1'']]\<rparr>) = Inr ns
       \<and> ((select [findNode ''1.1''] (unselect [] mock_selected) (findNode ''1.1'') = Some True)
          = (findNode ''1.1'' \<in> set ns))"
proof -
  let ?h1 = "select [findNode ''1.1''] (unselect [] mock_selected)"
  let ?svc1 = "(init mock_tree)\<lparr>state := \<lparr>tree = mock_tree, selectionStack = [toggle_of ''1.1'']\<rparr>,
                               onSelectionChanged := [[findNode ''1.1'']]\<rparr>"
  have v: "service_validateNode (init mock_tree) (findNode ''1.1'')
           = Some (NodeObject (inner 1 ''1.1'' [leaf 2 ''1.1.1'', leaf 3 ''1.1.2'']))"
    by code_simp
  have st: "state (init mock_tree) = \<lparr>tree = mock_tree, selectionStack = []\<rparr>"
    by (simp add: init_def new_TreeSelectionState_def)
  have ev: "onSelectionChanged (init mock_tree) = []" by (simp add: init_def)
  have step: "addSelection mock_selected (init mock_tree) (Selection (toggle_of ''1.1''))
              = Inr (?h1, ?svc1)"
    by (simp add: ev addSelection_def selection_of_def spread_default_def toggle_of_def Let_def v st
        nextState_def type_of_def handleToggle_def checkNoDefaultSelection_def selectedNodes_def
        difference_def fireSelectionChanged_def)
  have ty: "SelectableTreeNode_is mock_selected (target (Selection (toggle_of ''1.1'')))"
    by (simp add: SelectableTreeNode_is_def mock_selected_def)
  have r: "service_reachable mock_selected mock_tree ?h1 ?svc1"
    by (rule service_reachable.call [OF service_reachable.start ty step])
  have a2: "mock_selected (findNode ''1.1'') \<noteq> Some True"
    by (simp add: mock_selected_def)
  show ?thesis using C6_selected_flags_mirror_selection [OF r a2] .
qed

text \<open>
  C7 says that \<^verbatim>\<open>addSelection\<close> with a node that is not in the id index of the tree changes
  nothing. The code does so whenever \<^verbatim>\<open>validateNode\<close> gives \<^verbatim>\<open>undefined\<close> (the lemma
  \<open>addSelection_validateNode_undefined\<close>), but the index is a plain object, and for a node
  whose id is a property name of \<^verbatim>\<open>Object.prototype\<close> the read \<^verbatim>\<open>this.nodes[id]\<close> gives the
  inherited member, not \<^verbatim>\<open>undefined\<close>, against the documentation of \<^verbatim>\<open>getNode\<close> (a node or
  \<^verbatim>\<open>undefined\<close>). On the fixture tree, whose index has no entry \<^verbatim>\<open>constructor\<close>, a TOGGLE
  selection of a node with that id is taken: the state gets the entry, the node is marked
  selected, and the event fires.
\<close>

theorem C7_addSelection_of_inherited_id_is_taken:
  "own (nodes mock_tree) ''constructor'' = None
   \<and> service_validateNode (init mock_tree) (NodeRef 99 ''constructor'')
       = Some (Inherited ''constructor'')
   \<and> addSelection mock_selected (init mock_tree)
        (Selection \<lparr>node = NodeRef 99 ''constructor'', type = Given TOGGLE\<rparr>)
      = Inr (select [NodeRef 99 ''constructor''] (unselect [] mock_selected),
             (init mock_tree)
               \<lparr>state := \<lparr>tree = mock_tree,
                           selectionStack = [\<lparr>node = NodeRef 99 ''constructor'', type = Given TOGGLE\<rparr>]\<rparr>,
                onSelectionChanged := [[NodeRef 99 ''constructor'']]\<rparr>)
   \<and> select [NodeRef 99 ''constructor''] (unselect [] mock_selected) (NodeRef 99 ''constructor'')
       = Some True"
proof -
  have o: "own (nodes mock_tree) ''constructor'' = None" by code_simp
  have v: "service_validateNode (init mock_tree) (NodeRef 99 ''constructor'')
           = Some (Inherited ''constructor'')"
    by code_simp
  have st: "state (init mock_tree) = \<lparr>tree = mock_tree, selectionStack = []\<rparr>"
    by (simp add: init_def new_TreeSelectionState_def)
  have ev: "onSelectionChanged (init mock_tree) = []" by (simp add: init_def)
  have step: "addSelection mock_selected (init mock_tree)
        (Selection \<lparr>node = NodeRef 99 ''constructor'', type = Given TOGGLE\<rparr>)
      = Inr (select [NodeRef 99 ''constructor''] (unselect [] mock_selected),
             (init mock_tree)
               \<lparr>state := \<lparr>tree = mock_tree,
                           selectionStack = [\<lparr>node = NodeRef 99 ''constructor'', type = Given TOGGLE\<rparr>]\<rparr>,
                onSelectionChanged := [[NodeRef 99 ''constructor'']]\<rparr>)"
    by (simp add: ev addSelection_def selection_of_def spread_default_def Let_def v st
        nextState_def type_of_def handleToggle_def checkNoDefaultSelection_def selectedNodes_def
        difference_def fireSelectionChanged_def)
  have f: "select [NodeRef 99 ''constructor''] (unselect [] mock_selected) (NodeRef 99 ''constructor'')
           = Some True"
    by (simp add: select_def)
  show ?thesis using o v step f by blast
qed

text \<open>
  C8. Every state reachable from the empty state has a stack of TOGGLE and RANGE entries
  only, so on it \<^verbatim>\<open>selectedNodes()\<close> returns and \<^verbatim>\<open>nextState\<close> does not throw the error of
  a surviving DEFAULT entry; and \<^verbatim>\<open>selectedNodes()\<close> on a stack that holds an entry of
  type DEFAULT, or of no type, throws that error.
\<close>

theorem C8_reachable_states_hold_no_default:
  "(reachable st \<longrightarrow>
      (\<forall>e\<in>set (selectionStack st). type_of e = Some TOGGLE \<or> type_of e = Some RANGE)
    \<and> (\<exists>ns. selectedNodes h st = Inr ns)
    \<and> nextState h st s \<noteq> Inl UnexpectedDefaultSelection)
   \<and> ((\<exists>e\<in>set (selectionStack st'). type_of e = Some DEFAULT \<or> type_of e = None)
        \<longrightarrow> selectedNodes h st' = Inl UnexpectedDefaultSelection)"
proof (intro conjI impI)
  assume r: "reachable st"
  show ty: "\<forall>e\<in>set (selectionStack st). type_of e = Some TOGGLE \<or> type_of e = Some RANGE"
    using reachable_types [OF r] .
  have chk: "checkNoDefaultSelection (selectionStack st) = Inr (selectionStack st)"
    using checkNoDefaultSelection_Inr [OF ty] .
  show "\<exists>ns. selectedNodes h st = Inr ns" using chk by (simp add: selectedNodes_def)
  show "nextState h st s \<noteq> Inl UnexpectedDefaultSelection" using nextState_error [OF chk] .
next
  assume "\<exists>e\<in>set (selectionStack st'). type_of e = Some DEFAULT \<or> type_of e = None"
  then show "selectedNodes h st' = Inl UnexpectedDefaultSelection" by (rule selectedNodes_throws)
qed

theorem C8_reachable_states_hold_no_default_witness:
  "reachable \<lparr>tree = mock_tree, selectionStack = [toggle_of ''1.1'']\<rparr>
   \<and> (\<exists>ns. selectedNodes mock_selected \<lparr>tree = mock_tree, selectionStack = [toggle_of ''1.1'']\<rparr>
            = Inr ns)
   \<and> nextState mock_selected \<lparr>tree = mock_tree, selectionStack = [toggle_of ''1.1'']\<rparr>
        (range_of ''1.3'') \<noteq> Inl UnexpectedDefaultSelection
   \<and> (\<exists>e\<in>set (selectionStack \<lparr>tree = mock_tree, selectionStack = [default_of ''1.1'']\<rparr>).
         type_of e = Some DEFAULT \<or> type_of e = None)
   \<and> selectedNodes mock_selected \<lparr>tree = mock_tree, selectionStack = [default_of ''1.1'']\<rparr>
      = Inl UnexpectedDefaultSelection"
proof -
  have "nextState mock_selected (new_TreeSelectionState mock_tree) (toggle_of ''1.1'')
        = Inr \<lparr>tree = mock_tree, selectionStack = [toggle_of ''1.1'']\<rparr>"
    by (simp add: nextState_def spread_default_def type_of_def handleToggle_def toggle_of_def
        checkNoDefaultSelection_def new_TreeSelectionState_def)
  then have r: "reachable \<lparr>tree = mock_tree, selectionStack = [toggle_of ''1.1'']\<rparr>"
    using reachable.step [OF reachable.empty] by blast
  have b: "\<exists>e\<in>set (selectionStack \<lparr>tree = mock_tree, selectionStack = [default_of ''1.1'']\<rparr>).
             type_of e = Some DEFAULT \<or> type_of e = None"
    by (simp add: default_of_def type_of_def)
  show ?thesis
    using r b C8_reachable_states_hold_no_default
      [of "\<lparr>tree = mock_tree, selectionStack = [toggle_of ''1.1'']\<rparr>" mock_selected
          "range_of ''1.3''" "\<lparr>tree = mock_tree, selectionStack = [default_of ''1.1'']\<rparr>"]
    by blast
qed

text \<open>
  C9. When the parent of a refresh resolves to a valid composite node, \<^verbatim>\<open>refresh\<close> schedules
  \<^verbatim>\<open>setChildren\<close>, and when that callback runs, on whatever the tree is by then, the
  notification of the resolution is \<^verbatim>\<open>onNodeRefreshed(parent)\<close> followed at once by its
  \<^verbatim>\<open>onChanged\<close>: in this order, and never \<^verbatim>\<open>onChanged\<close> alone. (\<^verbatim>\<open>refresh\<close> itself has
  fired one \<^verbatim>\<open>onChanged\<close> before, as it returned.)
\<close>

theorem C9_node_refreshed_before_changed:
  assumes "CompositeTreeNode_is (case raw of None \<Rightarrow> map_option NodeObject (root t)
                                 | Some r \<Rightarrow> validateNode t (Some r))"
  shows "\<exists>parent.
           (case raw of None \<Rightarrow> map_option NodeObject (root t)
            | Some r \<Rightarrow> validateNode t (Some r)) = Some (NodeObject parent)
         \<and> refresh raw t = (fireChanged t, Some (parent, resolveChildren parent))
         \<and> fired (fireChanged t) = fired t @ [Changed]
         \<and> (\<forall>t2. fired (runPending (Some (parent, resolveChildren parent)) t2)
                  = fired t2 @ [NodeRefreshed (self parent), Changed])
         \<and> fired (runPending (snd (refresh raw t)) (fst (refresh raw t)))
             = fired t @ [Changed, NodeRefreshed (self parent), Changed]"
proof -
  let ?p = "case raw of None \<Rightarrow> map_option NodeObject (root t) | Some r \<Rightarrow> validateNode t (Some r)"
  from assms obtain parent where p: "?p = Some (NodeObject parent)"
    by (cases ?p rule: option.exhaust; cases "the ?p") (simp_all add: CompositeTreeNode_is_def)
  have r: "refresh raw t = (fireChanged t, Some (parent, resolveChildren parent))"
    using assms p by (simp add: refresh_def Let_def)
  have c: "fired (fireChanged t) = fired t @ [Changed]" by (simp add: fireChanged_def)
  have n: "fired (runPending (Some (parent, resolveChildren parent)) t2)
           = fired t2 @ [NodeRefreshed (self parent), Changed]" for t2
    by (simp add: runPending_def setChildren_def fireNodeRefreshed_def fireChanged_def Let_def)
  have "fired (runPending (snd (refresh raw t)) (fst (refresh raw t)))
        = fired t @ [Changed, NodeRefreshed (self parent), Changed]"
    unfolding r by (simp add: n c)
  then show ?thesis using p r c n by blast
qed

theorem C9_node_refreshed_before_changed_witness:
  "\<exists>parent.
      (case Some (findNode ''1.2'') of None \<Rightarrow> map_option NodeObject (root mock_tree)
       | Some r \<Rightarrow> validateNode mock_tree (Some r)) = Some (NodeObject parent)
    \<and> refresh (Some (findNode ''1.2'')) mock_tree
        = (fireChanged mock_tree, Some (parent, resolveChildren parent))
    \<and> fired (fireChanged mock_tree) = fired mock_tree @ [Changed]
    \<and> (\<forall>t2. fired (runPending (Some (parent, resolveChildren parent)) t2)
             = fired t2 @ [NodeRefreshed (self parent), Changed])
    \<and> fired (runPending (snd (refresh (Some (findNode ''1.2'')) mock_tree))
               (fst (refresh (Some (findNode ''1.2'')) mock_tree)))
        = fired mock_tree @ [Changed, NodeRefreshed (self parent), Changed]"
proof -
  have h: "CompositeTreeNode_is (case Some (findNode ''1.2'') of
                                   None \<Rightarrow> map_option NodeObject (root mock_tree)
                                 | Some r \<Rightarrow> validateNode mock_tree (Some r))"
    by code_simp
  show ?thesis
    using C9_node_refreshed_before_changed [OF h] .
qed

text \<open>
  C10. \<^verbatim>\<open>getNode(undefined)\<close> and \<^verbatim>\<open>validateNode(undefined)\<close> return \<^verbatim>\<open>undefined\<close>. Both
  only read the index, so they are functions of the tree that return a value and no tree.
\<close>

theorem C10_lookup_of_undefined:
  "getNode t None = None \<and> validateNode t None = None"
  by (simp add: getNode_def validateNode_def)

end
